theory Spec2Isabelle
  imports Complex_Main
begin

section \<open>The image reader: \<^verbatim>\<open>src/App.tsx\<close>\<close>

text \<open>
  The component \<^verbatim>\<open>App\<close> and its two hooks \<^verbatim>\<open>useWorker\<close> and \<^verbatim>\<open>useObjectURL\<close>
  are modelled as one state record and one transition function per handler, callback
  and effect of the source. React state (\<^verbatim>\<open>useState\<close>) is a field of the record; a
  setter is a field update. What lies outside the source is the environment and is
  modelled by what the component can observe of it:
  \<^item> the tesseract.js worker is the list of calls made to it, the list of
    \<^verbatim>\<open>recognize\<close> promises that have not settled, and events: the worker invokes
    \<^verbatim>\<open>logger\<close> or \<^verbatim>\<open>errorHandler\<close>, or settles a promise, in any order;
  \<^item> the browser's object-URL store is the list of URLs created and not yet revoked.

  Numbers are JavaScript numbers, IEEE 754 doubles, and \<^verbatim>\<open>m.progress * 100\<close> is the
  product of doubles with its rounding.
\<close>

subsection \<open>Data\<close>

text \<open>A \<^verbatim>\<open>File\<close> object and an object URL, each by its identity.\<close>

type_synonym File = nat
type_synonym url = nat
type_synonym Error = string

text \<open>The fields of tesseract.js's \<^verbatim>\<open>Page\<close> that the component reads.\<close>

record Page =
  page_text :: string
  words :: "string list"
  lines :: "string list"
  confidence :: real

subsection \<open>JavaScript numbers\<close>

text \<open>
  A JavaScript number is an IEEE 754 double: \<^verbatim>\<open>NaN\<close>, an infinity with its sign, or a
  finite number. A finite number is written with its sign, a mantissa and an exponent:
  \<open>Finite a m e\<close> is \<open>m * 2 ^ e\<close>, negated when \<open>a\<close> holds, so \<open>Finite True 0 0\<close> is
  \<^verbatim>\<open>-0\<close>. One double has several such writings (0.5 is \<open>Finite False 1 (- 1)\<close> and
  \<open>Finite False 2 (- 2)\<close>); \<open>is_double\<close> holds of the writings that denote a double.
\<close>

datatype number = NaN | Infinity bool | Finite bool nat int

text \<open>The number of binary digits of \<open>n\<close>.\<close>

fun bit_length :: "nat \<Rightarrow> nat" where
  "bit_length n = (if n = 0 then 0 else Suc (bit_length (n div 2)))"

declare bit_length.simps [simp del]

text \<open>
  A writing denotes a double when its mantissa has at most 53 binary digits, its
  exponent is at least \<open>- 1074\<close>, and its value is below \<open>2 ^ 1024\<close>.
\<close>

fun is_double :: "number \<Rightarrow> bool" where
  "is_double (Finite a m e) =
     (m < 2 ^ 53 \<and> - 1074 \<le> e \<and> int (bit_length m) + e \<le> 1024)"
| "is_double x = True"

text \<open>
  \<open>M\<close> without its \<open>sh\<close> lowest binary digits, rounded to the nearest and, when the
  digits dropped are exactly one half, to the even neighbour.
\<close>

definition round_ties_even :: "nat \<Rightarrow> nat \<Rightarrow> nat" where
  "round_ties_even M sh =
     (let q = M div 2 ^ sh; r = M mod 2 ^ sh; half = 2 ^ (sh - 1)
      in if r < half then q
         else if half < r then q + 1
         else if even q then q else q + 1)"

text \<open>
  The double that an arithmetic operation returns for the exact result \<open>M * 2 ^ E\<close>
  with sign \<open>sg\<close> (IEEE 754, round to nearest, ties to even): the exact result keeps
  its 53 highest binary digits, fewer where the exponent would fall below \<open>- 1074\<close>,
  and a result that reaches \<open>2 ^ 1024\<close> is an infinity.
\<close>

definition to_double :: "bool \<Rightarrow> nat \<Rightarrow> int \<Rightarrow> number" where
  "to_double sg M E =
     (if M = 0 then Finite sg 0 0
      else
        (let sh = max (int (bit_length M) - 53) (- 1074 - E);
             q = (if sh \<le> 0 then M else round_ties_even M (nat sh));
             E' = (if sh \<le> 0 then E else E + sh)
         in if 1024 < int (bit_length q) + E' then Infinity sg
            else if q = 2 ^ 53 then Finite sg (2 ^ 52) (E' + 1)
            else Finite sg q E'))"

text \<open>
  The operator \<^verbatim>\<open>*\<close> on numbers. \<^verbatim>\<open>NaN\<close> times anything and an infinity times zero
  are \<^verbatim>\<open>NaN\<close>; the sign of every other product is negative when exactly one factor is.
\<close>

fun number_times :: "number \<Rightarrow> number \<Rightarrow> number" where
  "number_times NaN y = NaN"
| "number_times (Infinity a) NaN = NaN"
| "number_times (Finite a m e) NaN = NaN"
| "number_times (Infinity a) (Infinity b) = Infinity (a \<noteq> b)"
| "number_times (Infinity a) (Finite b n f) = (if n = 0 then NaN else Infinity (a \<noteq> b))"
| "number_times (Finite a m e) (Infinity b) = (if m = 0 then NaN else Infinity (a \<noteq> b))"
| "number_times (Finite a m e) (Finite b n f) = to_double (a \<noteq> b) (m * n) (e + f)"

text \<open>
  \<^verbatim>\<open>Math.round\<close>: \<^verbatim>\<open>NaN\<close> and the infinities are returned as they are; a finite
  number gives the nearest integer, a tie going towards \<open>+\<infinity>\<close>, written with exponent 0.
  A result of zero is \<^verbatim>\<open>-0\<close> when the argument is negative or \<^verbatim>\<open>-0\<close>.
\<close>

fun Math_round :: "number \<Rightarrow> number" where
  "Math_round NaN = NaN"
| "Math_round (Infinity a) = Infinity a"
| "Math_round (Finite a m e) =
     (if 0 \<le> e then Finite a (m * 2 ^ nat e) 0
      else
        (let d = 2 ^ nat (- e);
             n = ((if a then - 2 * int m else 2 * int m) + d) div (2 * d)
         in Finite (n < 0 \<or> n = 0 \<and> a) (nat \<bar>n\<bar>) 0))"

text \<open>The literal \<^verbatim>\<open>100\<close>.\<close>

definition hundred :: number where
  "hundred = Finite False 100 0"

text \<open>The real number that the writing \<open>Finite a m e\<close> denotes.\<close>

definition dyadic :: "bool \<Rightarrow> nat \<Rightarrow> int \<Rightarrow> real" where
  "dyadic a m e = (if a then - 1 else 1) * real m * 2 powi e"

text \<open>
  What IEEE 754 asks of the double \<open>v\<close> returned for the exact result \<open>x\<close>: \<open>v\<close> is a
  double, no double is nearer to \<open>x\<close>, and where another double is as near, \<open>v\<close> is the
  one whose last binary digit is 0, that is an even multiple of the distance between
  the two.
\<close>

definition nearest_double :: "real \<Rightarrow> real \<Rightarrow> bool" where
  "nearest_double x v =
     ((\<exists>a q e. is_double (Finite a q e) \<and> v = dyadic a q e) \<and>
      (\<forall>b m f. is_double (Finite b m f) \<longrightarrow> \<bar>v - x\<bar> \<le> \<bar>dyadic b m f - x\<bar>) \<and>
      (\<forall>b m f. is_double (Finite b m f) \<longrightarrow> dyadic b m f \<noteq> v \<longrightarrow>
         \<bar>dyadic b m f - x\<bar> = \<bar>v - x\<bar> \<longrightarrow>
         (\<exists>c::int. even c \<and> v = of_int c * \<bar>dyadic b m f - v\<bar>)))"

subsection \<open>Messages, calls and the state\<close>

text \<open>
  The argument \<^verbatim>\<open>m\<close> of \<^verbatim>\<open>logger\<close>: its fields \<^verbatim>\<open>jobId\<close>, \<^verbatim>\<open>status\<close> and
  \<^verbatim>\<open>progress\<close>. \<^verbatim>\<open>jobId\<close> names the call to the worker that the message reports on,
  here by the index of that call in the list of calls; the component never reads it.
  A message without a \<^verbatim>\<open>progress\<close> field has \<open>m_progress = NaN\<close>: \<^verbatim>\<open>undefined * 100\<close> is
  \<^verbatim>\<open>NaN\<close>, as \<^verbatim>\<open>NaN * 100\<close> is.
\<close>

record LoggerMessage =
  m_jobId :: nat
  m_status :: string
  m_progress :: number

text \<open>A call made to the worker.\<close>

datatype call = Load | LoadLanguage string | Initialize string | Recognize File

text \<open>
  Where the async function \<^verbatim>\<open>init\<close> of \<^verbatim>\<open>useWorker\<close> stands: not called yet, at
  one of its three \<^verbatim>\<open>await\<close>s, returned, or rejected (an awaited promise rejected;
  nothing handles the rejection of \<^verbatim>\<open>init()\<close>).
\<close>

datatype init_pc =
  InitNotCalled | AwaitLoad | AwaitLoadLanguage | AwaitInitialize | InitReturned
  | InitRejected Error

record State =
  progress :: number              \<comment> \<open>\<^verbatim>\<open>useWorker\<close>: \<^verbatim>\<open>useState(0)\<close>\<close>
  lang :: string                  \<comment> \<open>\<^verbatim>\<open>useWorker\<close>: \<^verbatim>\<open>useState("eng")\<close>\<close>
  error :: "Error option"         \<comment> \<open>\<^verbatim>\<open>useWorker\<close>: \<^verbatim>\<open>useState<Error | null>(null)\<close>\<close>
  objUrl :: "url option"          \<comment> \<open>\<^verbatim>\<open>useObjectURL\<close>: \<^verbatim>\<open>useState<string | null>(null)\<close>\<close>
  ocr :: "Page option"            \<comment> \<open>\<^verbatim>\<open>App\<close>: \<^verbatim>\<open>useState<Page | null>(null)\<close>\<close>
  image_file :: "File option"     \<comment> \<open>\<^verbatim>\<open>App\<close>: \<^verbatim>\<open>image\<close>, \<^verbatim>\<open>useState<File | null>(null)\<close>\<close>
  loading :: bool                 \<comment> \<open>\<^verbatim>\<open>App\<close>: \<^verbatim>\<open>useState(false)\<close>\<close>
  cleanup :: "url option"         \<comment> \<open>the cleanup returned by the last run of \<^verbatim>\<open>useObjectURL\<close>'s effect:
                                      \<open>Some url\<close> is \<^verbatim>\<open>() => URL.revokeObjectURL(url)\<close>\<close>
  urls :: "url list"              \<comment> \<open>browser: object URLs created and not revoked\<close>
  url_count :: nat                \<comment> \<open>browser: number of object URLs created so far\<close>
  calls :: "call list"            \<comment> \<open>worker: the calls made to it, oldest first\<close>
  pending :: "(nat \<times> File) list"  \<comment> \<open>worker: unsettled \<^verbatim>\<open>recognize\<close> promises, each with the index
                                      of its call in \<open>calls\<close> and the image passed\<close>
  init_pc :: init_pc

text \<open>What the environment does to the component.\<close>

datatype event =
    ImageChange "File option"         \<comment> \<open>the file input changes; \<^verbatim>\<open>e.target.files?.[0]\<close>\<close>
  | Log "LoggerMessage option"        \<comment> \<open>the worker calls \<^verbatim>\<open>logger(m)\<close>\<close>
  | EngineError Error                 \<comment> \<open>the worker calls \<^verbatim>\<open>errorHandler(e)\<close>\<close>
  | InitSettled "Error + unit"        \<comment> \<open>the promise \<^verbatim>\<open>init\<close> awaits rejects or resolves\<close>
  | RecognizeSettled nat "Error + Page"
                                      \<comment> \<open>the \<^verbatim>\<open>recognize\<close> promise of that call rejects, or
                                          resolves with \<^verbatim>\<open>{ data }\<close>\<close>

subsection \<open>\<^verbatim>\<open>useWorker\<close>\<close>

text \<open>
  \<^verbatim>\<open>logger: (m) => { if (m?.status === "recognizing text") {
       setProgress(Math.round(m.progress * 100)); } }\<close>
\<close>

definition logger :: "LoggerMessage option \<Rightarrow> State \<Rightarrow> State" where
  "logger m s =
     (case m of
        None \<Rightarrow> s
      | Some msg \<Rightarrow>
          if m_status msg = ''recognizing text''
          then s\<lparr>progress := Math_round (number_times (m_progress msg) hundred)\<rparr>
          else s)"

text \<open>\<^verbatim>\<open>errorHandler: (e) => { setError(e); }\<close>\<close>

definition errorHandler :: "Error \<Rightarrow> State \<Rightarrow> State" where
  "errorHandler e s = s\<lparr>error := Some e\<rparr>"

text \<open>\<^verbatim>\<open>const clearError = React.useCallback(() => setError(null), [])\<close>\<close>

definition clearError :: "State \<Rightarrow> State" where
  "clearError s = s\<lparr>error := None\<rparr>"

text \<open>
  The effect of \<^verbatim>\<open>useWorker\<close> calls \<^verbatim>\<open>init()\<close>, which runs up to its first
  \<^verbatim>\<open>await\<close>: \<^verbatim>\<open>await worker.load()\<close>.
\<close>

definition init :: "State \<Rightarrow> State" where
  "init s = s\<lparr>calls := calls s @ [Load], init_pc := AwaitLoad\<rparr>"

text \<open>
  \<^verbatim>\<open>init\<close> resumes when the promise it awaits settles. On a rejection the \<^verbatim>\<open>await\<close>
  throws, \<^verbatim>\<open>init\<close>'s own promise rejects, and no state of the component is set: the
  effect dropped that promise. On a resolution \<^verbatim>\<open>init\<close> makes its next call.
\<close>

definition init_resume :: "Error + unit \<Rightarrow> State \<Rightarrow> State" where
  "init_resume r s =
     (case init_pc s of
        InitNotCalled \<Rightarrow> s
      | InitReturned \<Rightarrow> s
      | InitRejected e \<Rightarrow> s
      | AwaitLoad \<Rightarrow>
          (case r of
             Inl e \<Rightarrow> s\<lparr>init_pc := InitRejected e\<rparr>
           | Inr u \<Rightarrow> s\<lparr>calls := calls s @ [LoadLanguage (lang s)], init_pc := AwaitLoadLanguage\<rparr>)
      | AwaitLoadLanguage \<Rightarrow>
          (case r of
             Inl e \<Rightarrow> s\<lparr>init_pc := InitRejected e\<rparr>
           | Inr u \<Rightarrow> s\<lparr>calls := calls s @ [Initialize (lang s)], init_pc := AwaitInitialize\<rparr>)
      | AwaitInitialize \<Rightarrow>
          (case r of
             Inl e \<Rightarrow> s\<lparr>init_pc := InitRejected e\<rparr>
           | Inr u \<Rightarrow> s\<lparr>init_pc := InitReturned\<rparr>))"

subsection \<open>\<^verbatim>\<open>useObjectURL\<close>\<close>

text \<open>
  The cleanup of the previous run of the effect, which React calls before the effect
  runs again: \<^verbatim>\<open>() => URL.revokeObjectURL(url)\<close> if that run returned one.
\<close>

definition useObjectURL_cleanup :: "State \<Rightarrow> State" where
  "useObjectURL_cleanup s =
     (case cleanup s of
        None \<Rightarrow> s
      | Some url \<Rightarrow> s\<lparr>cleanup := None, urls := removeAll url (urls s)\<rparr>)"

text \<open>
  The effect: \<^verbatim>\<open>if (img) { const url = URL.createObjectURL(img); setObjUrl(url);
  return () => URL.revokeObjectURL(url); } else { setObjUrl(null); }\<close>.
  \<^verbatim>\<open>createObjectURL\<close> returns a URL that was never returned before.
\<close>

definition useObjectURL_effect :: "File option \<Rightarrow> State \<Rightarrow> State" where
  "useObjectURL_effect img s =
     (case img of
        Some f \<Rightarrow>
          (let url = url_count s
           in s\<lparr>objUrl := Some url, cleanup := Some url,
                urls := urls s @ [url], url_count := Suc (url_count s)\<rparr>)
      | None \<Rightarrow> s\<lparr>objUrl := None, cleanup := None\<rparr>)"

subsection \<open>\<^verbatim>\<open>App\<close>\<close>

text \<open>
  \<^verbatim>\<open>read\<close> up to its \<^verbatim>\<open>await\<close>: \<^verbatim>\<open>setLoading(true)\<close>, then the call
  \<^verbatim>\<open>worker.recognize(image)\<close> with the image the effect closed over.
\<close>

definition read :: "File \<Rightarrow> State \<Rightarrow> State" where
  "read f s =
     s\<lparr>loading := True,
       calls := calls s @ [Recognize f],
       pending := pending s @ [(length (calls s), f)]\<rparr>"

text \<open>\<^verbatim>\<open>setOcr(data)\<close>\<close>

definition setOcr :: "Page \<Rightarrow> State \<Rightarrow> State" where
  "setOcr data s = s\<lparr>ocr := Some data\<rparr>"

text \<open>
  \<^verbatim>\<open>read\<close> resumes when its \<^verbatim>\<open>recognize\<close> promise settles:
  \<^verbatim>\<open>try { const { data } = await worker.recognize(image); clearError(); setOcr(data); }
  catch {}  setLoading(false);\<close>. A promise settles once: for a call that is not pending
  nothing happens.
\<close>

definition read_resume :: "nat \<Rightarrow> Error + Page \<Rightarrow> State \<Rightarrow> State" where
  "read_resume p r s =
     (if p \<in> fst ` set (pending s)
      then
        (let s1 = s\<lparr>pending := filter (\<lambda>q. fst q \<noteq> p) (pending s)\<rparr>
         in case r of
              Inr data \<Rightarrow> (setOcr data (clearError s1))\<lparr>loading := False\<rparr>
            | Inl e \<Rightarrow> s1\<lparr>loading := False\<rparr>)
      else s)"

text \<open>
  \<^verbatim>\<open>setImage(img)\<close> and the render it causes. A value identical to the current one
  causes no render. Otherwise the effects whose dependencies hold \<^verbatim>\<open>image\<close> run again
  in the order of their declaration, after the cleanup of the previous run:
  \<^verbatim>\<open>useObjectURL\<close>'s effect, then \<^verbatim>\<open>App\<close>'s effect \<^verbatim>\<open>if (image) { read(); }\<close>.
\<close>

definition setImage :: "File option \<Rightarrow> State \<Rightarrow> State" where
  "setImage img s =
     (if image_file s = img then s
      else
        (let s1 = s\<lparr>image_file := img\<rparr>;
             s2 = useObjectURL_cleanup s1;
             s3 = useObjectURL_effect img s2
         in case img of Some f \<Rightarrow> read f s3 | None \<Rightarrow> s3))"

text \<open>
  The states the component goes through during \<^verbatim>\<open>setImage(img)\<close>, in order: the one
  before, then after the new value is set, after the cleanup, after
  \<^verbatim>\<open>useObjectURL\<close>'s effect, after \<^verbatim>\<open>App\<close>'s effect.
\<close>

definition setImage_states :: "File option \<Rightarrow> State \<Rightarrow> State list" where
  "setImage_states img s =
     (if image_file s = img then [s]
      else
        (let s1 = s\<lparr>image_file := img\<rparr>;
             s2 = useObjectURL_cleanup s1;
             s3 = useObjectURL_effect img s2
         in [s, s1, s2, s3, case img of Some f \<Rightarrow> read f s3 | None \<Rightarrow> s3]))"

text \<open>
  \<^verbatim>\<open>onImageChange\<close>: \<^verbatim>\<open>const file = e.target.files?.[0]; if (!file) return;
  setImage(file);\<close>
\<close>

definition onImageChange :: "File option \<Rightarrow> State \<Rightarrow> State" where
  "onImageChange file s = (case file of None \<Rightarrow> s | Some f \<Rightarrow> setImage (Some f) s)"

text \<open>
  The initial values of the \<^verbatim>\<open>useState\<close> calls, with nothing called and no URL
  created.
\<close>

definition initial :: State where
  "initial =
     \<lparr>progress = Finite False 0 0, lang = ''eng'', error = None, objUrl = None, ocr = None,
      image_file = None, loading = False, cleanup = None, urls = [], url_count = 0,
      calls = [], pending = [], init_pc = InitNotCalled\<rparr>"

text \<open>
  The first render runs every effect: \<^verbatim>\<open>useWorker\<close>'s calls \<^verbatim>\<open>init()\<close>,
  \<^verbatim>\<open>useObjectURL\<close>'s runs with \<^verbatim>\<open>img = null\<close>, and \<^verbatim>\<open>App\<close>'s does nothing, as
  \<^verbatim>\<open>image\<close> is \<^verbatim>\<open>null\<close>.
\<close>

definition mount :: State where
  "mount = useObjectURL_effect None (init initial)"

subsection \<open>Runs\<close>

fun step :: "event \<Rightarrow> State \<Rightarrow> State" where
  "step (ImageChange file) s = onImageChange file s"
| "step (Log m) s = logger m s"
| "step (EngineError e) s = errorHandler e s"
| "step (InitSettled r) s = init_resume r s"
| "step (RecognizeSettled p r) s = read_resume p r s"

fun run :: "event list \<Rightarrow> State \<Rightarrow> State" where
  "run [] s = s"
| "run (e # es) s = run es (step e s)"

text \<open>Successive calls of \<^verbatim>\<open>setImage\<close>, and every state they go through.\<close>

fun setImage_all :: "File option list \<Rightarrow> State \<Rightarrow> State" where
  "setImage_all [] s = s"
| "setImage_all (img # imgs) s = setImage_all imgs (setImage img s)"

fun setImage_all_states :: "File option list \<Rightarrow> State \<Rightarrow> State list" where
  "setImage_all_states [] s = [s]"
| "setImage_all_states (img # imgs) s =
     setImage_states img s @ setImage_all_states imgs (setImage img s)"

subsection \<open>Kinds of events, and the runs used as examples\<close>

text \<open>The events on which \<open>logger\<close> sets the progress: a message whose status is
  \<^verbatim>\<open>"recognizing text"\<close>.\<close>

fun is_recognizing_text :: "event \<Rightarrow> bool" where
  "is_recognizing_text (Log (Some m)) = (m_status m = ''recognizing text'')"
| "is_recognizing_text e = False"

text \<open>The events by which the worker reports its status without settling a
  \<^verbatim>\<open>recognize\<close> promise or failing: a call of \<open>logger\<close>, or a step of the bootstrap
  resolving.\<close>

fun is_status_event :: "event \<Rightarrow> bool" where
  "is_status_event (Log m) = True"
| "is_status_event (InitSettled (Inr u)) = True"
| "is_status_event e = False"

text \<open>Two pages, as the worker could return them. The second has confidence 92.5,
  ten words and two lines.\<close>

definition pageA :: Page where
  "pageA = \<lparr>page_text = ''A'', words = [''A''], lines = [''A''], confidence = 90\<rparr>"

definition page_92_5 :: Page where
  "page_92_5 =
     \<lparr>page_text = ''a b c d e f g h i j'',
      words = [''a'', ''b'', ''c'', ''d'', ''e'', ''f'', ''g'', ''h'', ''i'', ''j''],
      lines = [''a b c d e'', ''f g h i j''],
      confidence = 185 / 2\<rparr>"

text \<open>Image 1 is submitted and then image 2, before any \<^verbatim>\<open>recognize\<close> promise has
  settled. The calls are \<open>[Load, Recognize 1, Recognize 2]\<close>, so the promise of image 1
  is number 1 and the one of image 2 is number 2.\<close>

definition two_submissions :: State where
  "two_submissions = run [ImageChange (Some 1), ImageChange (Some 2)] mount"

text \<open>The first step of the bootstrap, \<^verbatim>\<open>worker.load()\<close>, rejects.\<close>

definition bootstrap_rejected :: State where
  "bootstrap_rejected = run [InitSettled (Inl ''load failed'')] mount"

text \<open>Image 1 is read with success; then image 2 is submitted, the worker reports an
  error to \<open>errorHandler\<close> and rejects the \<^verbatim>\<open>recognize\<close> promise of image 2.\<close>

definition success_then_failure :: "event list" where
  "success_then_failure =
     [ImageChange (Some 1), RecognizeSettled 1 (Inr pageA),
      ImageChange (Some 2), EngineError ''unsupported format'',
      RecognizeSettled 2 (Inl ''unsupported format'')]"

text \<open>The state after one submission that failed in that way.\<close>

definition failed_once :: State where
  "failed_once =
     run [ImageChange (Some 1), EngineError ''unsupported format'',
          RecognizeSettled 1 (Inl ''unsupported format'')] mount"

text \<open>One submission: the bootstrap resolves step by step and the recognition resolves,
  and the worker never calls \<open>logger\<close>.\<close>

definition silent_success :: "event list" where
  "silent_success =
     [ImageChange (Some 1), InitSettled (Inr ()), InitSettled (Inr ()), InitSettled (Inr ()),
      RecognizeSettled 1 (Inr page_92_5)]"

text \<open>One submission of \<open>f\<close> in the state \<open>s\<close>, where its \<^verbatim>\<open>recognize\<close> call gets the
  number \<open>length (calls s)\<close>: the events \<open>es\<close> follow, and then that call resolves with
  \<open>data\<close>.\<close>

definition single_submission :: "State \<Rightarrow> File \<Rightarrow> event list \<Rightarrow> Page \<Rightarrow> event list" where
  "single_submission s f es data =
     ImageChange (Some f) # es @ [RecognizeSettled (length (calls s)) (Inr data)]"

text \<open>Status events of the \<^verbatim>\<open>recognize\<close> call number 1, reporting the fractions 0.25
  and 0.5, and one of the bootstrap.\<close>

definition quarter_of_job_1 :: LoggerMessage where
  "quarter_of_job_1 =
     \<lparr>m_jobId = 1, m_status = ''recognizing text'', m_progress = Finite False 1 (- 2)\<rparr>"

definition half_of_job_1 :: LoggerMessage where
  "half_of_job_1 =
     \<lparr>m_jobId = 1, m_status = ''recognizing text'', m_progress = Finite False 1 (- 1)\<rparr>"

definition initializing_api :: LoggerMessage where
  "initializing_api =
     \<lparr>m_jobId = 0, m_status = ''initializing api'', m_progress = Finite False 1 0\<rparr>"

text \<open>Image 1 is submitted and its recognition has reported 25 percent when image 2 is
  submitted; both \<^verbatim>\<open>recognize\<close> promises are pending.\<close>

definition overlapping :: State where
  "overlapping =
     run [ImageChange (Some 1), Log (Some quarter_of_job_1), ImageChange (Some 2)] mount"

subsection \<open>Invariants of the object-URL store\<close>

text \<open>The live object URLs are exactly the one the pending cleanup will revoke, if there
  is one; and there is a pending cleanup exactly when an image is set.\<close>

definition url_inv :: "State \<Rightarrow> bool" where
  "url_inv s = (urls s = (case cleanup s of None \<Rightarrow> [] | Some u \<Rightarrow> [u]))"

definition bound_inv :: "State \<Rightarrow> bool" where
  "bound_inv s = ((cleanup s = None) = (image_file s = None))"

section \<open>Properties\<close>

lemmas hook_defs = logger_def errorHandler_def clearError_def init_def init_resume_def
  useObjectURL_cleanup_def useObjectURL_effect_def read_def setOcr_def read_resume_def
  setImage_def onImageChange_def

subsection \<open>The product of doubles and its rounding\<close>

lemma bit_length_0: "bit_length 0 = 0"
  by (simp add: bit_length.simps)

lemma bit_length_pos: "0 < n \<Longrightarrow> bit_length n = Suc (bit_length (n div 2))"
  by (subst bit_length.simps) simp

lemma bit_length_gt: "n < 2 ^ bit_length n"
proof (induction n rule: bit_length.induct)
  case (1 n)
  show ?case
  proof (cases "n = 0")
    case True
    then show ?thesis by (simp add: bit_length_0)
  next
    case False
    with 1 have "n div 2 < 2 ^ bit_length (n div 2)" by simp
    then have "n < 2 * 2 ^ bit_length (n div 2)" by linarith
    then show ?thesis using False by (simp add: bit_length_pos)
  qed
qed

lemma bit_length_le: "0 < n \<Longrightarrow> 2 ^ (bit_length n - 1) \<le> n"
proof (induction n rule: bit_length.induct)
  case (1 n)
  show ?case
  proof (cases "n div 2 = 0")
    case True
    then show ?thesis using "1.prems" by (simp add: bit_length_pos bit_length_0)
  next
    case False
    then have pos: "0 < n div 2" by simp
    with 1 have ih: "2 ^ (bit_length (n div 2) - 1) \<le> n div 2" by simp
    have "bit_length (n div 2) = Suc (bit_length (n div 2) - 1)"
      using pos by (simp add: bit_length_pos)
    then have "2 ^ bit_length (n div 2) = 2 * 2 ^ (bit_length (n div 2) - 1)"
      by (metis power_Suc)
    also have "\<dots> \<le> 2 * (n div 2)" using ih by simp
    also have "\<dots> \<le> n" by simp
    finally show ?thesis using "1.prems" by (simp add: bit_length_pos)
  qed
qed

lemma bit_length_nonzero: "0 < n \<Longrightarrow> 0 < bit_length n"
  by (simp add: bit_length_pos)


lemma round_ties_even_cases:
  assumes "0 < sh"
  shows "round_ties_even M sh = M div 2 ^ sh \<and> 2 * (M mod 2 ^ sh) \<le> 2 ^ sh \<or>
         round_ties_even M sh = M div 2 ^ sh + 1 \<and> 2 ^ sh \<le> 2 * (M mod 2 ^ sh)"
proof -
  from assms obtain k where k: "sh = Suc k" by (cases sh) auto
  show ?thesis unfolding k by (simp add: round_ties_even_def Let_def)
qed

lemma round_ties_even_tie:
  assumes "0 < sh" and "2 * (M mod 2 ^ sh) = 2 ^ sh"
  shows "even (round_ties_even M sh)"
proof -
  from assms obtain k where k: "sh = Suc k" by (cases sh) auto
  show ?thesis using assms(2) unfolding k by (simp add: round_ties_even_def Let_def)
qed

lemma int_div_mod:
  "int M = int (M div 2 ^ sh) * 2 ^ sh + int (M mod 2 ^ sh)"
proof -
  have "int (M div 2 ^ sh * 2 ^ sh + M mod 2 ^ sh) = int M"
    by (simp only: div_mult_mod_eq)
  then show ?thesis by simp
qed

lemma int_mod_bound: "int (M mod 2 ^ sh) < 2 ^ sh"
proof -
  have "M mod 2 ^ sh < 2 ^ sh" by simp
  then have "int (M mod 2 ^ sh) < int (2 ^ sh)" by (simp only: of_nat_less_iff)
  then show ?thesis by simp
qed

lemma round_ties_even_int_cases:
  assumes "0 < sh"
  shows "int (round_ties_even M sh) = int (M div 2 ^ sh) \<and> 2 * int (M mod 2 ^ sh) \<le> 2 ^ sh \<or>
         int (round_ties_even M sh) = int (M div 2 ^ sh) + 1 \<and> 2 ^ sh \<le> 2 * int (M mod 2 ^ sh)"
proof -
  from round_ties_even_cases [OF assms, of M]
  show ?thesis
  proof
    assume a: "round_ties_even M sh = M div 2 ^ sh \<and> 2 * (M mod 2 ^ sh) \<le> 2 ^ sh"
    then have "int (2 * (M mod 2 ^ sh)) \<le> int (2 ^ sh)" by (simp only: of_nat_le_iff)
    then show ?thesis using a by simp
  next
    assume a: "round_ties_even M sh = M div 2 ^ sh + 1 \<and> 2 ^ sh \<le> 2 * (M mod 2 ^ sh)"
    then have "int (2 ^ sh) \<le> int (2 * (M mod 2 ^ sh))" by (simp only: of_nat_le_iff)
    then show ?thesis using a by simp
  qed
qed

lemma nearest_multiple:
  fixes c :: int
  assumes "0 < sh"
  shows "\<bar>int (round_ties_even M sh) * 2 ^ sh - int M\<bar> \<le> \<bar>c * 2 ^ sh - int M\<bar>"
proof -
  define X :: int where "X = 2 ^ sh"
  define q :: int where "q = int (M div 2 ^ sh)"
  define r :: int where "r = int (M mod 2 ^ sh)"
  have X: "0 < X" by (simp add: X_def)
  have M: "int M = q * X + r"
    unfolding q_def r_def X_def by (rule int_div_mod)
  have r: "0 \<le> r" "r < X" unfolding r_def X_def by (simp_all add: int_mod_bound)
  have lo: "r \<le> \<bar>c * X - int M\<bar>" if "c \<le> q"
  proof -
    from that have "c * X \<le> q * X" using X by (simp add: mult_right_mono)
    then show ?thesis using M r by linarith
  qed
  have hi: "X - r \<le> \<bar>c * X - int M\<bar>" if "q + 1 \<le> c"
  proof -
    from that have "(q + 1) * X \<le> c * X" using X by (simp add: mult_right_mono)
    then have "q * X + X \<le> c * X" by (simp add: algebra_simps)
    then show ?thesis using M r by linarith
  qed
  have c: "c \<le> q \<or> q + 1 \<le> c" by linarith
  from round_ties_even_int_cases [OF assms, of M]
  have "int (round_ties_even M sh) = q \<and> 2 * r \<le> X \<or>
        int (round_ties_even M sh) = q + 1 \<and> X \<le> 2 * r"
    unfolding q_def r_def X_def .
  then show ?thesis
  proof
    assume a: "int (round_ties_even M sh) = q \<and> 2 * r \<le> X"
    have "\<bar>q * X - int M\<bar> = r" using M r by simp
    moreover have "r \<le> \<bar>c * X - int M\<bar>" using c lo hi a by linarith
    ultimately show ?thesis using a unfolding X_def [symmetric] by simp
  next
    assume a: "int (round_ties_even M sh) = q + 1 \<and> X \<le> 2 * r"
    have "(q + 1) * X - int M = X - r" using M by (simp add: algebra_simps)
    then have "\<bar>(q + 1) * X - int M\<bar> = X - r" using r by simp
    moreover have "X - r \<le> \<bar>c * X - int M\<bar>" using c lo hi a by linarith
    ultimately show ?thesis using a unfolding X_def [symmetric] by simp
  qed
qed

lemma nearest_multiple_le_rest:
  assumes "0 < sh"
  shows "\<bar>int (round_ties_even M sh) * 2 ^ sh - int M\<bar> \<le> int (M mod 2 ^ sh)"
proof -
  define X :: int where "X = 2 ^ sh"
  define q :: int where "q = int (M div 2 ^ sh)"
  define r :: int where "r = int (M mod 2 ^ sh)"
  have M: "int M = q * X + r"
    unfolding q_def r_def X_def by (rule int_div_mod)
  have r: "0 \<le> r" "r < X" unfolding r_def X_def by (simp_all add: int_mod_bound)
  from round_ties_even_int_cases [OF assms, of M]
  have "int (round_ties_even M sh) = q \<and> 2 * r \<le> X \<or>
        int (round_ties_even M sh) = q + 1 \<and> X \<le> 2 * r"
    unfolding q_def r_def X_def .
  then show ?thesis
  proof
    assume a: "int (round_ties_even M sh) = q \<and> 2 * r \<le> X"
    have "\<bar>q * X - int M\<bar> = r" using M r by simp
    then show ?thesis using a unfolding X_def [symmetric] r_def [symmetric] by simp
  next
    assume a: "int (round_ties_even M sh) = q + 1 \<and> X \<le> 2 * r"
    have "(q + 1) * X - int M = X - r" using M by (simp add: algebra_simps)
    then have "\<bar>(q + 1) * X - int M\<bar> = X - r" using r by simp
    then show ?thesis using a unfolding X_def [symmetric] r_def [symmetric] by simp
  qed
qed

lemma powi_split:
  assumes "e \<le> f"
  shows "(2::real) powi f = 2 ^ nat (f - e) * 2 powi e"
proof -
  have "(2::real) powi ((f - e) + e) = 2 powi (f - e) * 2 powi e"
    by (rule power_int_add) simp
  moreover have "(2::real) powi (f - e) = 2 ^ nat (f - e)"
    using assms by (simp add: power_int_def)
  ultimately show ?thesis by simp
qed

lemma le_div_pow: "a * 2 ^ n \<le> M \<Longrightarrow> a \<le> M div 2 ^ n" for a M :: nat
  by (simp add: less_eq_div_iff_mult_less_eq)

lemma nearest_on_grid:
  fixes z :: int
  assumes "0 < n" and "E + int n \<le> f"
  shows "\<bar>real (round_ties_even M n) * 2 ^ n * 2 powi E - real M * 2 powi E\<bar>
           \<le> \<bar>of_int z * 2 powi f - real M * 2 powi E\<bar>"
proof -
  define u :: real where "u = 2 powi E"
  define q where "q = round_ties_even M n"
  define c :: int where "c = z * 2 ^ nat (f - (E + int n))"
  have u: "0 < u" by (simp add: u_def zero_less_power_int)
  have "(2::real) powi f = 2 ^ nat (f - (E + int n)) * 2 powi (E + int n)"
    using assms(2) by (rule powi_split)
  also have "(2::real) powi (E + int n) = 2 powi E * 2 powi int n"
    by (rule power_int_add) simp
  finally have pf: "(2::real) powi f = 2 ^ nat (f - (E + int n)) * (2 ^ n * u)"
    by (simp add: u_def mult.commute)
  have L: "real q * 2 ^ n * u - real M * u = of_int (int q * 2 ^ n - int M) * u"
    by (simp add: algebra_simps)
  have R: "of_int z * 2 powi f - real M * u = of_int (c * 2 ^ n - int M) * u"
    by (simp add: pf c_def algebra_simps)
  from nearest_multiple [OF assms(1), of M c]
  have "\<bar>int q * 2 ^ n - int M\<bar> \<le> \<bar>c * 2 ^ n - int M\<bar>" by (simp add: q_def)
  then have "real_of_int \<bar>int q * 2 ^ n - int M\<bar> \<le> real_of_int \<bar>c * 2 ^ n - int M\<bar>"
    by (simp only: of_int_le_iff)
  then have "real_of_int \<bar>int q * 2 ^ n - int M\<bar> * u \<le> real_of_int \<bar>c * 2 ^ n - int M\<bar> * u"
    using u by (simp add: mult_right_mono)
  then have "\<bar>of_int (int q * 2 ^ n - int M) * u\<bar> \<le> \<bar>of_int (c * 2 ^ n - int M) * u\<bar>"
    using u by (simp add: abs_mult)
  then show ?thesis unfolding L [symmetric] R [symmetric] by (simp add: u_def q_def)
qed

lemma strictly_nearer_below_grid:
  fixes z :: int
  assumes "53 < bit_length M" and n: "n = bit_length M - 53"
    and "f < E + int n" and "z \<le> int m" and "m < 2 ^ 53"
  shows "\<bar>real (round_ties_even M n) * 2 ^ n * 2 powi E - real M * 2 powi E\<bar>
           < \<bar>of_int z * 2 powi f - real M * 2 powi E\<bar>"
proof -
  define u :: real where "u = 2 powi E"
  define q where "q = round_ties_even M n"
  define q0 where "q0 = M div 2 ^ n"
  define r where "r = M mod 2 ^ n"
  have u: "0 < u" by (simp add: u_def zero_less_power_int)
  have npos: "0 < n" using assms(1) n by simp
  have M0: "0 < M" using assms(1) by (cases "M = 0") (simp_all add: bit_length_0)
  have k: "bit_length M - 1 = 52 + n" using assms(1) n by simp
  from bit_length_le [OF M0] have "2 ^ (52 + n) \<le> M" unfolding k .
  then have "2 ^ 52 * 2 ^ n \<le> M" by (simp only: power_add)
  then have q0: "2 ^ 52 \<le> q0" unfolding q0_def by (rule le_div_pow)
  have Mqr: "real M = real q0 * 2 ^ n + real r"
  proof -
    have "int M = int q0 * 2 ^ n + int r" unfolding q0_def r_def by (rule int_div_mod)
    then have "real_of_int (int M) = real_of_int (int q0 * 2 ^ n + int r)" by simp
    then show ?thesis by simp
  qed
  have pf: "(2::real) powi f \<le> 2 ^ (n - 1) * u"
  proof -
    have "(2::real) powi f \<le> 2 powi (E + int n - 1)"
      using assms(3) by (intro power_int_increasing) simp_all
    also have "E + int n - 1 = int (n - 1) + E" using npos by simp
    also have "(2::real) powi (int (n - 1) + E) = 2 powi int (n - 1) * 2 powi E"
      by (rule power_int_add) simp
    finally show ?thesis by (simp add: u_def)
  qed
  have "of_int z * 2 powi f \<le> real m * 2 powi f"
    using assms(4) by (simp add: mult_right_mono zero_less_power_int less_imp_le)
  also have "\<dots> \<le> real m * (2 ^ (n - 1) * u)"
    using pf by (simp add: mult_left_mono)
  also have "\<dots> < 2 ^ 53 * (2 ^ (n - 1) * u)"
  proof -
    have "real m < 2 ^ 53" using assms(5) by (metis of_nat_less_iff of_nat_numeral of_nat_power)
    moreover have "0 < 2 ^ (n - 1) * u" using u by simp
    ultimately show ?thesis by (rule mult_strict_right_mono)
  qed
  also have "2 ^ 53 * (2 ^ (n - 1) * u) = 2 ^ 52 * 2 ^ n * u"
  proof -
    have "(2::real) ^ n = 2 * 2 ^ (n - 1)" using npos by (cases n) simp_all
    then show ?thesis by simp
  qed
  also have "\<dots> \<le> real q0 * 2 ^ n * u"
  proof -
    have "(2::real) ^ 52 \<le> real q0" using q0 by (metis of_nat_le_iff of_nat_numeral of_nat_power)
    then show ?thesis using u by (simp add: mult_right_mono)
  qed
  finally have D: "of_int z * 2 powi f < real q0 * 2 ^ n * u" .
  have "real M * u - of_int z * 2 powi f > real r * u"
    using D by (simp add: Mqr algebra_simps)
  moreover have "0 \<le> real r * u" using u by simp
  ultimately have R: "real r * u < \<bar>of_int z * 2 powi f - real M * u\<bar>" by linarith
  from nearest_multiple_le_rest [OF npos, of M]
  have "\<bar>int q * 2 ^ n - int M\<bar> \<le> int r" by (simp add: q_def r_def)
  then have "real_of_int \<bar>int q * 2 ^ n - int M\<bar> \<le> real_of_int (int r)"
    by (simp only: of_int_le_iff)
  then have "real_of_int \<bar>int q * 2 ^ n - int M\<bar> * u \<le> real r * u"
    using u by (simp add: mult_right_mono)
  moreover have "real q * 2 ^ n * u - real M * u = of_int (int q * 2 ^ n - int M) * u"
    by (simp add: algebra_simps)
  ultimately have "\<bar>real q * 2 ^ n * u - real M * u\<bar> \<le> real r * u"
    using u by (simp add: abs_mult)
  then show ?thesis using R unfolding u_def q_def by linarith
qed

lemma bit_length_pow: "bit_length (2 ^ n) = Suc n"
  by (induction n) (simp_all add: bit_length_pos bit_length_0)

lemma round_ties_even_le:
  assumes "0 < n" and "M < 2 ^ 53 * 2 ^ n"
  shows "round_ties_even M n \<le> 2 ^ 53"
proof -
  have "M div 2 ^ n < 2 ^ 53"
    using assms(2) by (simp add: less_mult_imp_div_less)
  then show ?thesis
    using round_ties_even_cases [OF assms(1), of M] by auto
qed

lemma to_double_exact:
  assumes "0 < M" and "to_double sg M E = Finite a q e"
    and "max (int (bit_length M) - 53) (- 1074 - E) \<le> 0"
  shows "a = sg \<and> real q * 2 powi e = real M * 2 powi E \<and> is_double (Finite a q e)"
proof -
  have lt: "M < 2 ^ 53"
  proof -
    have "bit_length M \<le> 53" using assms(3) by simp
    then have "(2::nat) ^ bit_length M \<le> 2 ^ 53" by (intro power_increasing) simp_all
    then show ?thesis using bit_length_gt [of M] by linarith
  qed
  then have ne: "M \<noteq> 2 ^ 53" by simp
  from assms(2,3) assms(1) ne
  have "\<not> 1024 < int (bit_length M) + E" and "a = sg" and "q = M" and "e = E"
    by (simp_all add: to_double_def Let_def split: if_splits)
  then show ?thesis using lt assms(3) by simp
qed

lemma to_double_rounded:
  assumes "0 < M" and "to_double sg M E = Finite a q e"
    and "0 < max (int (bit_length M) - 53) (- 1074 - E)"
    and "n = nat (max (int (bit_length M) - 53) (- 1074 - E))"
  shows "a = sg \<and> real q * 2 powi e = real (round_ties_even M n) * 2 ^ n * 2 powi E \<and>
         is_double (Finite a q e)"
proof -
  define sh where "sh = max (int (bit_length M) - 53) (- 1074 - E)"
  define q' where "q' = round_ties_even M n"
  have sh: "0 < sh" "int n = sh" using assms(3,4) by (simp_all add: sh_def)
  have npos: "0 < n" using sh by simp
  have "bit_length M \<le> 53 + n" using sh by (simp add: sh_def)
  then have "(2::nat) ^ bit_length M \<le> 2 ^ (53 + n)" by (intro power_increasing) simp_all
  then have "M < 2 ^ (53 + n)" using bit_length_gt [of M] by linarith
  then have "M < 2 ^ 53 * 2 ^ n" by (simp only: power_add)
  with npos have q'le: "q' \<le> 2 ^ 53" unfolding q'_def by (rule round_ties_even_le)
  have E': "- 1074 \<le> E + sh" by (simp add: sh_def)
  have pw: "(2::real) powi (E + sh) = 2 ^ n * 2 powi E"
  proof -
    have "(2::real) powi (E + int n) = 2 powi E * 2 powi int n" by (rule power_int_add) simp
    then have "(2::real) powi (E + int n) = 2 ^ n * 2 powi E" by (simp add: mult.commute)
    then show ?thesis unfolding sh(2) .
  qed
  from assms(2) assms(1) sh(1)
  have res: "\<not> 1024 < int (bit_length q') + (E + sh) \<and>
             (if q' = 2 ^ 53 then Finite sg (2 ^ 52) (E + sh + 1) else Finite sg q' (E + sh))
               = Finite a q e"
    unfolding to_double_def Let_def sh_def [symmetric] q'_def assms(4)
    by (simp split: if_splits)
  show ?thesis
  proof (cases "q' = 2 ^ 53")
    case True
    with res have eq: "a = sg" "q = 2 ^ 52" "e = E + sh + 1" by simp_all
    have "(2::real) powi (E + sh + 1) = 2 powi (E + sh) * 2"
      by (rule power_int_add_1) simp
    then have v: "real q * 2 powi e = real q' * 2 ^ n * 2 powi E"
      using eq True pw by simp
    have "int (bit_length (2 ^ 53)) + (E + sh) \<le> 1024" using res True by simp
    then have "int (bit_length (2 ^ 52)) + (E + sh + 1) \<le> 1024"
      by (simp only: bit_length_pow)
    then have "is_double (Finite a q e)" using eq E' by simp
    then show ?thesis using eq v by (simp add: q'_def)
  next
    case False
    with res have eq: "a = sg" "q = q'" "e = E + sh" by simp_all
    have "q' < 2 ^ 53" using False q'le by simp
    then have "is_double (Finite a q e)" using eq E' res by simp
    then show ?thesis using eq pw by (simp add: q'_def)
  qed
qed

lemma dyadic_int:
  "dyadic b m f = of_int (if b then - int m else int m) * 2 powi f"
  by (simp add: dyadic_def)

lemma to_double_nearest:
  assumes "0 < M" and "to_double sg M E = Finite a q e" and "is_double (Finite b m f)"
  shows "\<bar>real q * 2 powi e - real M * 2 powi E\<bar>
           \<le> \<bar>dyadic b m f - real M * 2 powi E\<bar>"
proof -
  define sh where "sh = max (int (bit_length M) - 53) (- 1074 - E)"
  define z where "z = (if b then - int m else int m)"
  have d: "m < 2 ^ 53" "- 1074 \<le> f" using assms(3) by simp_all
  have z: "z \<le> int m" by (simp add: z_def)
  have v: "dyadic b m f = of_int z * 2 powi f" by (simp add: z_def dyadic_def)
  show ?thesis
  proof (cases "sh \<le> 0")
    case True
    from to_double_exact [OF assms(1,2)] True
    have "real q * 2 powi e = real M * 2 powi E" by (simp add: sh_def)
    then show ?thesis by simp
  next
    case False
    define n where "n = nat sh"
    have npos: "0 < n" and n: "int n = sh" using False by (simp_all add: n_def)
    have pos: "0 < max (int (bit_length M) - 53) (- 1074 - E)"
      using False unfolding sh_def by linarith
    have nn: "n = nat (max (int (bit_length M) - 53) (- 1074 - E))"
      by (simp add: n_def sh_def)
    from to_double_rounded [OF assms(1,2) pos nn]
    have q: "real q * 2 powi e = real (round_ties_even M n) * 2 ^ n * 2 powi E"
      by simp
    show ?thesis
    proof (cases "E + int n \<le> f")
      case True
      with npos show ?thesis unfolding q v by (rule nearest_on_grid)
    next
      case below: False
      then have "- 1074 - E < sh" using d(2) n by simp
      then have sh: "sh = int (bit_length M) - 53" by (simp add: sh_def)
      then have k: "53 < bit_length M" using False by simp
      have n': "n = bit_length M - 53" using sh n by simp
      from below have "f < E + int n" by simp
      with k n' have "\<bar>real (round_ties_even M n) * 2 ^ n * 2 powi E - real M * 2 powi E\<bar>
                        < \<bar>of_int z * 2 powi f - real M * 2 powi E\<bar>"
        using z d(1) by (rule strictly_nearer_below_grid)
      then show ?thesis unfolding q v by simp
    qed
  qed
qed

lemma powi_le_bit_length:
  assumes "0 < M"
  shows "(2::real) powi (int (bit_length M) - 1 + E) \<le> real M * 2 powi E"
proof -
  have k: "int (bit_length M) - 1 = int (bit_length M - 1)"
    using bit_length_nonzero [OF assms] by simp
  have "(2::real) powi (int (bit_length M - 1) + E) = 2 powi int (bit_length M - 1) * 2 powi E"
    by (rule power_int_add) simp
  also have "\<dots> = real (2 ^ (bit_length M - 1)) * 2 powi E" by simp
  also have "\<dots> \<le> real M * 2 powi E"
  proof -
    have "real (2 ^ (bit_length M - 1)) \<le> real M"
      using bit_length_le [OF assms] by (simp only: of_nat_le_iff)
    then show ?thesis by (simp add: mult_right_mono zero_less_power_int less_imp_le)
  qed
  finally show ?thesis by (simp add: k)
qed

lemma bit_length_bound:
  assumes "0 < M" and "real M * 2 powi E \<le> 100"
  shows "int (bit_length M) + E \<le> 7"
proof -
  have "(2::real) powi (int (bit_length M) - 1 + E) \<le> 100"
    using powi_le_bit_length [OF assms(1), of E] assms(2) by linarith
  also have "(100::real) < 2 powi 7" by simp
  finally have "int (bit_length M) - 1 + E < 7"
    by (intro power_int_le_imp_less_exp [of "2::real"]) simp_all
  then show ?thesis by simp
qed

lemma bit_length_mono_pow: "q \<le> 2 ^ j \<Longrightarrow> bit_length q \<le> Suc j"
proof (rule ccontr)
  assume q: "q \<le> 2 ^ j" and "\<not> bit_length q \<le> Suc j"
  then have b: "Suc j \<le> bit_length q - 1" by simp
  then have pos: "0 < q" by (cases "q = 0") (simp_all add: bit_length_0)
  have "(2::nat) ^ Suc j \<le> 2 ^ (bit_length q - 1)" using b by (intro power_increasing) simp_all
  also have "\<dots> \<le> q" using pos by (rule bit_length_le)
  finally have "2 * 2 ^ j \<le> q" by simp
  moreover have "(0::nat) < 2 ^ j" by simp
  ultimately show False using q by linarith
qed

lemma to_double_no_overflow:
  assumes "0 < M" and "real M * 2 powi E \<le> 100"
  shows "\<exists>q e. to_double sg M E = Finite sg q e"
proof -
  define sh where "sh = max (int (bit_length M) - 53) (- 1074 - E)"
  have kE: "int (bit_length M) + E \<le> 7" using assms by (rule bit_length_bound)
  show ?thesis
  proof (cases "sh \<le> 0")
    case True
    then show ?thesis using assms(1) kE
      unfolding to_double_def Let_def sh_def [symmetric] by simp
  next
    case False
    define n where "n = nat sh"
    have npos: "0 < n" and n: "int n = sh" using False by (simp_all add: n_def)
    have "bit_length M \<le> 53 + n" using n by (simp add: sh_def)
    then have "(2::nat) ^ bit_length M \<le> 2 ^ (53 + n)" by (intro power_increasing) simp_all
    then have "M < 2 ^ (53 + n)" using bit_length_gt [of M] by linarith
    then have "M < 2 ^ 53 * 2 ^ n" by (simp only: power_add)
    with npos have "round_ties_even M n \<le> 2 ^ 53" by (rule round_ties_even_le)
    then have "bit_length (round_ties_even M n) \<le> Suc 53" by (rule bit_length_mono_pow)
    moreover have "E + sh \<le> - 46" using kE by (simp add: sh_def)
    ultimately have "\<not> 1024 < int (bit_length (round_ties_even M n)) + (E + sh)" by simp
    then show ?thesis using assms(1) False
      unfolding to_double_def Let_def sh_def [symmetric] n_def by simp
  qed
qed

lemma Math_round_val:
  "Math_round (Finite a m e) =
     Finite (round (dyadic a m e) < 0 \<or> round (dyadic a m e) = 0 \<and> a)
       (nat \<bar>round (dyadic a m e)\<bar>) 0"
proof (cases "0 \<le> e")
  case True
  define z where "z = (if a then - int (m * 2 ^ nat e) else int (m * 2 ^ nat e))"
  have "(2::real) powi e = 2 ^ nat e" using True by (simp add: power_int_def)
  then have "dyadic a m e = of_int z" by (simp add: z_def dyadic_def)
  then have r: "round (dyadic a m e) = z" by (simp only: round_of_int)
  have nn: "0 \<le> int m * 2 ^ nat e" by simp
  have zz: "nat (int m * 2 ^ nat e) = m * 2 ^ nat e"
    by (simp add: nat_mult_distrib nat_power_eq)
  show ?thesis using True nn zz unfolding r by (auto simp: z_def)
next
  case False
  define d :: int where "d = 2 ^ nat (- e)"
  define z where "z = (if a then - int m else int m)"
  have dpos: "0 < d" by (simp add: d_def)
  have "(2::real) powi e = 1 / of_int d" using False by (simp add: power_int_def d_def field_simps)
  then have v: "dyadic a m e = of_int z / of_int d" by (simp add: z_def dyadic_def)
  have "of_int z / of_int d + 1 / 2 = (of_int (2 * z + d) :: real) / of_int (2 * d)"
    using dpos by (simp add: field_simps)
  then have "round (dyadic a m e) = \<lfloor>(of_int (2 * z + d) :: real) / of_int (2 * d)\<rfloor>"
    unfolding round_def v by simp
  then have r: "round (dyadic a m e) = (2 * z + d) div (2 * d)"
    by (simp only: floor_divide_of_int_eq)
  show ?thesis using False unfolding r by (simp add: Let_def d_def z_def)
qed

lemma tie_multiple:
  fixes c :: int
  assumes "0 < sh" and "c \<noteq> int (round_ties_even M sh)"
    and "\<bar>c * 2 ^ sh - int M\<bar> = \<bar>int (round_ties_even M sh) * 2 ^ sh - int M\<bar>"
  shows "even (round_ties_even M sh) \<and> \<bar>c - int (round_ties_even M sh)\<bar> = 1"
proof -
  define X :: int where "X = 2 ^ sh"
  define q :: int where "q = int (M div 2 ^ sh)"
  define r :: int where "r = int (M mod 2 ^ sh)"
  define t :: int where "t = int (round_ties_even M sh)"
  have X: "0 < X" by (simp add: X_def)
  have M: "int M = q * X + r"
    unfolding q_def r_def X_def by (rule int_div_mod)
  have r: "0 \<le> r" "r < X" unfolding r_def X_def by (simp_all add: int_mod_bound)
  have eq: "\<bar>c * X - int M\<bar> = \<bar>t * X - int M\<bar>" using assms(3) by (simp add: X_def t_def)
  have ne: "c \<noteq> t" using assms(2) by (simp add: t_def)
  have lo: "r + (q - c) * X = int M - c * X" using M by (simp add: algebra_simps)
  have mono: "a \<le> b \<Longrightarrow> a * X \<le> b * X" for a b :: int
    using X by (simp add: mult_right_mono)
  from round_ties_even_int_cases [OF assms(1), of M]
  have "t = q \<and> 2 * r \<le> X \<or> t = q + 1 \<and> X \<le> 2 * r"
    unfolding q_def r_def X_def t_def .
  then have "2 * r = X \<and> \<bar>c - t\<bar> = 1"
  proof
    assume a: "t = q \<and> 2 * r \<le> X"
    then have d: "\<bar>c * X - int M\<bar> = r" using eq M r by simp
    have "\<not> c < q"
    proof
      assume "c < q"
      then have "c + 1 \<le> q" by simp
      then have "(c + 1) * X \<le> q * X" by (rule mono)
      then have "c * X + X \<le> q * X" by (simp add: algebra_simps)
      then show False using d M r X by linarith
    qed
    then have c: "q + 1 \<le> c" using ne a by simp
    then have c1: "(q + 1) * X \<le> c * X" by (rule mono)
    then have c2: "q * X + X \<le> c * X" by (simp add: algebra_simps)
    have "\<not> q + 1 < c"
    proof
      assume "q + 1 < c"
      then have "q + 2 \<le> c" by simp
      then have "(q + 2) * X \<le> c * X" by (rule mono)
      then have "q * X + 2 * X \<le> c * X" by (simp add: algebra_simps)
      then show False using d M r X a by linarith
    qed
    then have "c = q + 1" using c by simp
    moreover from this have "c * X = q * X + X" by (simp add: algebra_simps)
    ultimately show ?thesis using d M r a by simp
  next
    assume a: "t = q + 1 \<and> X \<le> 2 * r"
    have "(q + 1) * X - int M = X - r" using M by (simp add: algebra_simps)
    then have d: "\<bar>c * X - int M\<bar> = X - r" using eq a r by simp
    have "\<not> q + 1 < c"
    proof
      assume "q + 1 < c"
      then have "q + 2 \<le> c" by simp
      then have "(q + 2) * X \<le> c * X" by (rule mono)
      then have "q * X + 2 * X \<le> c * X" by (simp add: algebra_simps)
      then show False using d M r X by linarith
    qed
    then have c: "c \<le> q" using ne a by simp
    then have c1: "c * X \<le> q * X" by (rule mono)
    have "\<not> c < q"
    proof
      assume "c < q"
      then have "c + 1 \<le> q" by simp
      then have "(c + 1) * X \<le> q * X" by (rule mono)
      then have "c * X + X \<le> q * X" by (simp add: algebra_simps)
      then show False using d M r X a by linarith
    qed
    then have "c = q" using c by simp
    then show ?thesis using d M r a by simp
  qed
  then have tie: "2 * r = X" and one: "\<bar>c - t\<bar> = 1" by simp_all
  from tie have "int (2 * (M mod 2 ^ sh)) = int (2 ^ sh)" by (simp add: r_def X_def)
  then have "2 * (M mod 2 ^ sh) = 2 ^ sh" by (simp only: of_nat_eq_iff)
  with assms(1) have "even (round_ties_even M sh)" by (rule round_ties_even_tie)
  then show ?thesis using one by (simp add: t_def)
qed

lemma to_double_ties_even:
  assumes "0 < M" and "to_double sg M E = Finite a q e" and "is_double (Finite b m f)"
    and "dyadic b m f \<noteq> real q * 2 powi e"
    and "\<bar>dyadic b m f - real M * 2 powi E\<bar> = \<bar>real q * 2 powi e - real M * 2 powi E\<bar>"
  shows "\<exists>c::int. even c \<and> real q * 2 powi e = of_int c * \<bar>dyadic b m f - real q * 2 powi e\<bar>"
proof -
  define sh where "sh = max (int (bit_length M) - 53) (- 1074 - E)"
  define z where "z = (if b then - int m else int m)"
  define u :: real where "u = 2 powi E"
  have u: "0 < u" by (simp add: u_def zero_less_power_int)
  have d: "m < 2 ^ 53" "- 1074 \<le> f" using assms(3) by simp_all
  have z: "z \<le> int m" by (simp add: z_def)
  have v: "dyadic b m f = of_int z * 2 powi f" by (simp add: z_def dyadic_def)
  have "\<not> sh \<le> 0"
  proof
    assume "sh \<le> 0"
    with to_double_exact [OF assms(1,2)]
    have "real q * 2 powi e = real M * 2 powi E" by (simp add: sh_def)
    then show False using assms(4,5) by simp
  qed
  then have pos: "0 < max (int (bit_length M) - 53) (- 1074 - E)"
    unfolding sh_def by linarith
  define n where "n = nat sh"
  have nn: "n = nat (max (int (bit_length M) - 53) (- 1074 - E))"
    by (simp add: n_def sh_def)
  have npos: "0 < n" and n: "int n = sh" using pos by (simp_all add: n_def sh_def)
  define t where "t = round_ties_even M n"
  from to_double_rounded [OF assms(1,2) pos nn]
  have q: "real q * 2 powi e = real t * 2 ^ n * u" by (simp add: t_def u_def)
  have "E + int n \<le> f"
  proof (rule ccontr)
    assume below: "\<not> E + int n \<le> f"
    then have "- 1074 - E < sh" using d(2) n by simp
    then have sh: "sh = int (bit_length M) - 53" by (simp add: sh_def)
    then have k: "53 < bit_length M" using pos by (simp add: sh_def)
    have n': "n = bit_length M - 53" using sh n by simp
    from below have "f < E + int n" by simp
    with k n' have "\<bar>real (round_ties_even M n) * 2 ^ n * 2 powi E - real M * 2 powi E\<bar>
                      < \<bar>of_int z * 2 powi f - real M * 2 powi E\<bar>"
      using z d(1) by (rule strictly_nearer_below_grid)
    then show False using assms(5) unfolding q v t_def u_def by simp
  qed
  define c :: int where "c = z * 2 ^ nat (f - (E + int n))"
  have "(2::real) powi f = 2 ^ nat (f - (E + int n)) * 2 powi (E + int n)"
    using \<open>E + int n \<le> f\<close> by (rule powi_split)
  also have "(2::real) powi (E + int n) = 2 powi E * 2 powi int n"
    by (rule power_int_add) simp
  finally have pf: "(2::real) powi f = 2 ^ nat (f - (E + int n)) * (2 ^ n * u)"
    by (simp add: u_def mult.commute)
  have D: "dyadic b m f = of_int c * (2 ^ n * u)"
    unfolding v pf by (simp add: c_def)
  have Xu: "0 < 2 ^ n * u" using u by simp
  have L: "real q * 2 powi e - real M * u = of_int (int t * 2 ^ n - int M) * u"
    unfolding q by (simp add: algebra_simps)
  have R: "dyadic b m f - real M * u = of_int (c * 2 ^ n - int M) * u"
    unfolding D by (simp add: algebra_simps)
  have "\<bar>of_int (c * 2 ^ n - int M) * u\<bar> = \<bar>of_int (int t * 2 ^ n - int M) * u\<bar>"
    using assms(5) unfolding u_def [symmetric] L R .
  then have "real_of_int \<bar>c * 2 ^ n - int M\<bar> * u = real_of_int \<bar>int t * 2 ^ n - int M\<bar> * u"
    using u by (simp add: abs_mult)
  then have "real_of_int \<bar>c * 2 ^ n - int M\<bar> = real_of_int \<bar>int t * 2 ^ n - int M\<bar>"
    using u by simp
  then have eq: "\<bar>c * 2 ^ n - int M\<bar> = \<bar>int t * 2 ^ n - int M\<bar>"
    by (simp only: of_int_eq_iff)
  have ne: "c \<noteq> int t"
  proof
    assume "c = int t"
    then have "dyadic b m f = real q * 2 powi e" unfolding D q by simp
    then show False using assms(4) by simp
  qed
  from tie_multiple [OF npos ne [unfolded t_def] eq [unfolded t_def]]
  have ev: "even t" and one: "\<bar>c - int t\<bar> = 1" by (simp_all add: t_def)
  define W where "W = dyadic b m f - real q * 2 powi e"
  have "W = of_int (c - int t) * (2 ^ n * u)"
    unfolding W_def D q by (simp add: algebra_simps)
  then have "\<bar>W\<bar> = \<bar>real_of_int (c - int t) * (2 ^ n * u)\<bar>" by (simp only:)
  also have "\<dots> = \<bar>real_of_int (c - int t)\<bar> * \<bar>2 ^ n * u\<bar>" by (rule abs_mult)
  also have "\<bar>2 ^ n * u\<bar> = 2 ^ n * u" using Xu by (rule abs_of_pos)
  also have "\<bar>real_of_int (c - int t)\<bar> = real_of_int \<bar>c - int t\<bar>" by simp
  finally have "\<bar>W\<bar> = 2 ^ n * u" using one by simp
  then have "real q * 2 powi e = of_int (int t) * \<bar>W\<bar>"
    unfolding q by simp
  then have "real q * 2 powi e = of_int (int t) * \<bar>dyadic b m f - real q * 2 powi e\<bar>"
    unfolding W_def .
  moreover have "even (int t)" using ev by simp
  ultimately show ?thesis by blast
qed

lemma to_double_is_double:
  assumes "0 < M" and "to_double sg M E = Finite a q e"
  shows "a = sg \<and> is_double (Finite a q e)"
proof (cases "max (int (bit_length M) - 53) (- 1074 - E) \<le> 0")
  case True
  with to_double_exact [OF assms] show ?thesis by simp
next
  case False
  then have "0 < max (int (bit_length M) - 53) (- 1074 - E)" by linarith
  from to_double_rounded [OF assms this refl] show ?thesis by simp
qed

lemma is_double_hundred: "is_double (Finite False 100 0)"
  by (simp add: bit_length.simps)

lemma dyadic_hundred: "dyadic False 100 0 = 100"
  by (simp add: dyadic_def)

lemma to_double_nearest_double:
  assumes "0 < M" and "to_double False M E = Finite a q e"
  shows "nearest_double (real M * 2 powi E) (dyadic a q e)"
proof -
  from to_double_is_double [OF assms] have a: "a = False" and d: "is_double (Finite a q e)"
    by simp_all
  have v: "dyadic a q e = real q * 2 powi e" using a by (simp add: dyadic_def)
  have 1: "\<exists>a' q' e'. is_double (Finite a' q' e') \<and> dyadic a q e = dyadic a' q' e'"
    using d by blast
  have 2: "\<bar>dyadic a q e - real M * 2 powi E\<bar> \<le> \<bar>dyadic b m f - real M * 2 powi E\<bar>"
    if "is_double (Finite b m f)" for b m f
    unfolding v using assms that by (rule to_double_nearest)
  have 3: "\<exists>c::int. even c \<and> dyadic a q e = of_int c * \<bar>dyadic b m f - dyadic a q e\<bar>"
    if "is_double (Finite b m f)" and "dyadic b m f \<noteq> dyadic a q e"
      and "\<bar>dyadic b m f - real M * 2 powi E\<bar> = \<bar>dyadic a q e - real M * 2 powi E\<bar>"
    for b m f
    using to_double_ties_even [OF assms that(1)] that(2,3) unfolding v by simp
  show ?thesis unfolding nearest_double_def using 1 2 3 by blast
qed

lemma nearest_double_zero: "nearest_double 0 0"
proof -
  have "is_double (Finite False 0 0)" by (simp add: bit_length.simps)
  moreover have "dyadic False 0 0 = 0" by (simp add: dyadic_def)
  ultimately have "\<exists>a q e. is_double (Finite a q e) \<and> (0::real) = dyadic a q e"
    by metis
  then show ?thesis unfolding nearest_double_def by simp
qed

lemma product_by_hundred:
  assumes "is_double (Finite sg mt ex)"
    and "0 \<le> dyadic sg mt ex" and "dyadic sg mt ex \<le> 1"
  shows "\<exists>q e n. number_times (Finite sg mt ex) hundred = Finite sg q e \<and>
           nearest_double (dyadic sg mt ex * 100) (dyadic sg q e) \<and>
           int n = round (dyadic sg q e) \<and> n \<le> 100 \<and>
           Math_round (Finite sg q e) = Finite sg n 0"
proof (cases "mt = 0")
  case True
  have "number_times (Finite sg mt ex) hundred = Finite sg 0 0"
    using True by (simp add: hundred_def to_double_def)
  moreover have "dyadic sg mt ex * 100 = 0" "dyadic sg 0 0 = 0"
    using True by (simp_all add: dyadic_def)
  moreover have "Math_round (Finite sg 0 0) = Finite sg 0 0" by simp
  ultimately show ?thesis using nearest_double_zero by auto
next
  case False
  then have mt: "0 < mt" by simp
  have sg: "sg = False"
  proof (rule ccontr)
    assume "sg \<noteq> False"
    then have "dyadic sg mt ex = - (real mt * 2 powi ex)" by (simp add: dyadic_def)
    moreover have "0 < real mt * 2 powi ex" using mt by (simp add: zero_less_power_int)
    ultimately show False using assms(2) by linarith
  qed
  have M: "0 < mt * 100" using mt by simp
  have P: "real (mt * 100) * 2 powi ex = dyadic sg mt ex * 100"
    using sg by (simp add: dyadic_def)
  have le: "real (mt * 100) * 2 powi ex \<le> 100" unfolding P using assms(3) by simp
  from to_double_no_overflow [OF M le, of False]
  obtain q e where t: "to_double False (mt * 100) ex = Finite False q e" by blast
  have nt: "number_times (Finite sg mt ex) hundred = Finite sg q e"
    using t sg by (simp add: hundred_def)
  from to_double_nearest_double [OF M t]
  have nd: "nearest_double (dyadic sg mt ex * 100) (dyadic sg q e)"
    unfolding P using sg by simp
  have v0: "0 \<le> dyadic sg q e" using sg by (simp add: dyadic_def zero_le_power_int)
  have "\<bar>dyadic sg q e - dyadic sg mt ex * 100\<bar> \<le> \<bar>dyadic False 100 0 - dyadic sg mt ex * 100\<bar>"
    using nd is_double_hundred unfolding nearest_double_def by blast
  then have v1: "dyadic sg q e \<le> 100"
    using assms(3) unfolding dyadic_hundred by linarith
  define r where "r = round (dyadic sg q e)"
  have "round (0::real) \<le> r" unfolding r_def using v0 by (rule round_mono)
  then have r0: "0 \<le> r" by simp
  have "r \<le> round (100::real)" unfolding r_def using v1 by (rule round_mono)
  then have r1: "r \<le> 100" by simp
  have "Math_round (Finite sg q e) = Finite (r < 0 \<or> r = 0 \<and> sg) (nat \<bar>r\<bar>) 0"
    unfolding r_def by (rule Math_round_val)
  then have mr: "Math_round (Finite sg q e) = Finite sg (nat r) 0"
    using r0 sg by simp
  have "int (nat r) = round (dyadic sg q e)" "nat r \<le> 100"
    using r0 r1 by (simp_all add: r_def)
  then show ?thesis using nt nd mr by blast
qed

lemma product_of_one:
  assumes "is_double (Finite sg mt ex)" and "dyadic sg mt ex = 1"
  shows "Math_round (number_times (Finite sg mt ex) hundred) = Finite False 100 0"
proof -
  from product_by_hundred [OF assms(1)] assms(2)
  obtain q e n where t: "number_times (Finite sg mt ex) hundred = Finite sg q e"
    and nd: "nearest_double 100 (dyadic sg q e)"
    and n: "int n = round (dyadic sg q e)"
    and mr: "Math_round (Finite sg q e) = Finite sg n 0"
    by auto
  have "\<bar>dyadic sg q e - 100\<bar> \<le> \<bar>dyadic False 100 0 - 100\<bar>"
    using nd is_double_hundred unfolding nearest_double_def by blast
  then have "dyadic sg q e = 100" unfolding dyadic_hundred by simp
  then have "int n = 100" using n by simp
  then have n': "n = 100" by simp
  have "sg = False"
  proof (rule ccontr)
    assume "sg \<noteq> False"
    then have "dyadic sg mt ex = - (real mt * 2 powi ex)" by (simp add: dyadic_def)
    moreover have "0 \<le> real mt * 2 powi ex" by (simp add: zero_le_power_int)
    ultimately show False using assms(2) by linarith
  qed
  then show ?thesis using t mr n' by simp
qed

subsection \<open>What each step leaves alone\<close>

lemma run_append: "run (xs @ ys) s = run ys (run xs s)"
  by (induction xs arbitrary: s) simp_all

lemma mount_simps:
  "loading mount = False" "pending mount = []" "error mount = None" "ocr mount = None"
  "image_file mount = None" "calls mount = [Load]" "urls mount = []" "cleanup mount = None"
  "progress mount = Finite False 0 0"
  by (simp_all add: mount_def initial_def init_def useObjectURL_effect_def)

lemma progress_onImageChange: "progress (onImageChange file s) = progress s"
  by (simp add: hook_defs Let_def split: option.splits)

lemma error_onImageChange: "error (onImageChange file s) = error s"
  by (simp add: hook_defs Let_def split: option.splits)

lemma ocr_onImageChange: "ocr (onImageChange file s) = ocr s"
  by (simp add: hook_defs Let_def split: option.splits)

lemma progress_init_resume: "progress (init_resume r s) = progress s"
  by (simp add: init_resume_def split: init_pc.splits sum.splits)

lemma progress_read_resume: "progress (read_resume p r s) = progress s"
  by (simp add: read_resume_def setOcr_def clearError_def Let_def split: sum.splits)

lemma progress_step: "\<not> is_recognizing_text e \<Longrightarrow> progress (step e s) = progress s"
proof (cases e)
  case (Log m)
  assume "\<not> is_recognizing_text e"
  with Log show ?thesis by (cases m) (simp_all add: logger_def)
qed (simp_all add: progress_onImageChange progress_init_resume progress_read_resume
      errorHandler_def)

lemma progress_run:
  "list_all (\<lambda>e. \<not> is_recognizing_text e) es \<Longrightarrow> progress (run es s) = progress s"
  by (induction es arbitrary: s) (simp_all add: progress_step)

lemma init_resume_frame:
  "error (init_resume r s) = error s \<and> ocr (init_resume r s) = ocr s \<and>
   loading (init_resume r s) = loading s \<and> pending (init_resume r s) = pending s \<and>
   image_file (init_resume r s) = image_file s"
  by (simp add: init_resume_def split: init_pc.splits sum.splits)

lemma logger_frame:
  "error (logger m s) = error s \<and> ocr (logger m s) = ocr s \<and>
   loading (logger m s) = loading s \<and> pending (logger m s) = pending s \<and>
   image_file (logger m s) = image_file s"
  by (simp add: logger_def split: option.splits)

lemma status_step_frame:
  "is_status_event e \<Longrightarrow>
   error (step e s) = error s \<and> ocr (step e s) = ocr s \<and>
   loading (step e s) = loading s \<and> pending (step e s) = pending s"
proof (cases e)
  case (Log m)
  then show ?thesis by (simp add: logger_frame)
next
  case (InitSettled r)
  then show ?thesis by (simp add: init_resume_frame)
qed simp_all

lemma status_run_frame:
  "list_all is_status_event es \<Longrightarrow>
   error (run es s) = error s \<and> ocr (run es s) = ocr s \<and>
   loading (run es s) = loading s \<and> pending (run es s) = pending s"
  by (induction es arbitrary: s) (simp_all add: status_step_frame)

subsection \<open>What a submission and a settlement do\<close>

lemma setImage_new:
  "image_file s \<noteq> Some f \<Longrightarrow>
   loading (setImage (Some f) s) \<and>
   calls (setImage (Some f) s) = calls s @ [Recognize f] \<and>
   pending (setImage (Some f) s) = pending s @ [(length (calls s), f)] \<and>
   image_file (setImage (Some f) s) = Some f"
  by (simp add: hook_defs Let_def split: option.splits)

lemma pending_settled_frame:
  "p \<in> fst ` set (pending s) \<Longrightarrow>
   progress (read_resume p r s) = progress s \<and> \<not> loading (read_resume p r s) \<and>
   (case r of
      Inl e \<Rightarrow> ocr (read_resume p r s) = ocr s \<and> error (read_resume p r s) = error s
    | Inr data \<Rightarrow> ocr (read_resume p r s) = Some data \<and> error (read_resume p r s) = None)"
  by (simp add: read_resume_def setOcr_def clearError_def Let_def split: sum.splits)

lemma init_pc_step:
  "init_pc s = InitRejected e \<Longrightarrow> init_pc (step ev s) = InitRejected e"
  by (cases ev)
     (simp_all add: hook_defs Let_def split: option.splits sum.splits init_pc.splits)

lemma init_pc_run:
  "init_pc s = InitRejected e \<Longrightarrow> init_pc (run es s) = InitRejected e"
  by (induction es arbitrary: s) (simp_all add: init_pc_step)

subsection \<open>While \<open>loading\<close> holds, a \<^verbatim>\<open>recognize\<close> promise is pending\<close>



subsection \<open>The object-URL store along \<^verbatim>\<open>setImage\<close> and along a run\<close>

lemma url_inv_cleanup:
  "url_inv s \<Longrightarrow> urls (useObjectURL_cleanup s) = [] \<and> cleanup (useObjectURL_cleanup s) = None"
  by (simp add: url_inv_def useObjectURL_cleanup_def split: option.splits)

lemma url_inv_effect:
  "urls s = [] \<Longrightarrow> cleanup s = None \<Longrightarrow> url_inv (useObjectURL_effect img s)"
  by (simp add: url_inv_def useObjectURL_effect_def Let_def split: option.splits)

lemma url_inv_read: "url_inv (read f s) = url_inv s"
  by (simp add: url_inv_def read_def)

lemma url_inv_image_file: "url_inv (s\<lparr>image_file := img\<rparr>) = url_inv s"
  by (simp add: url_inv_def)

lemma url_inv_setImage_states:
  assumes "url_inv s"
  shows "list_all url_inv (setImage_states img s)"
proof (cases "image_file s = img")
  case True
  then show ?thesis using assms by (simp add: setImage_states_def)
next
  case False
  let ?s1 = "s\<lparr>image_file := img\<rparr>"
  let ?s2 = "useObjectURL_cleanup ?s1"
  let ?s3 = "useObjectURL_effect img ?s2"
  have i1: "url_inv ?s1" using assms by (simp add: url_inv_image_file)
  from url_inv_cleanup [OF i1] have c: "urls ?s2 = []" "cleanup ?s2 = None" by simp_all
  then have i2: "url_inv ?s2" by (simp add: url_inv_def)
  from c have i3: "url_inv ?s3" by (rule url_inv_effect)
  have i4: "url_inv (case img of Some f \<Rightarrow> read f ?s3 | None \<Rightarrow> ?s3)"
    using i3 by (cases img) (simp_all add: url_inv_read)
  show ?thesis using False assms i1 i2 i3 i4 by (simp add: setImage_states_def Let_def)
qed

lemma setImage_last_state: "setImage img s = last (setImage_states img s)"
  by (simp add: setImage_def setImage_states_def Let_def)

lemma setImage_states_nonempty: "setImage_states img s \<noteq> []"
  by (simp add: setImage_states_def Let_def)

lemma url_inv_setImage: "url_inv s \<Longrightarrow> url_inv (setImage img s)"
proof -
  assume "url_inv s"
  then have "list_all url_inv (setImage_states img s)" by (rule url_inv_setImage_states)
  then have "url_inv (last (setImage_states img s))"
    using setImage_states_nonempty [of img s] by (simp add: list_all_iff)
  then show ?thesis by (simp add: setImage_last_state)
qed

lemma url_inv_step: "url_inv s \<Longrightarrow> url_inv (step e s)"
proof (cases e)
  case (ImageChange fl)
  assume "url_inv s"
  with ImageChange show ?thesis
    by (cases fl) (simp_all add: onImageChange_def url_inv_setImage)
next
  case (Log m)
  assume "url_inv s"
  with Log show ?thesis by (simp add: url_inv_def logger_def split: option.splits)
next
  case (EngineError x)
  assume "url_inv s"
  with EngineError show ?thesis by (simp add: url_inv_def errorHandler_def)
next
  case (InitSettled r)
  assume "url_inv s"
  with InitSettled show ?thesis
    by (simp add: url_inv_def init_resume_def split: init_pc.splits sum.splits)
next
  case (RecognizeSettled p r)
  assume "url_inv s"
  with RecognizeSettled show ?thesis
    by (simp add: url_inv_def read_resume_def setOcr_def clearError_def Let_def
             split: sum.splits)
qed

lemma url_inv_run: "url_inv s \<Longrightarrow> url_inv (run es s)"
  by (induction es arbitrary: s) (simp_all add: url_inv_step)

lemma url_inv_setImage_all_states:
  "url_inv s \<Longrightarrow> list_all url_inv (setImage_all_states imgs s)"
  by (induction imgs arbitrary: s)
     (simp_all add: url_inv_setImage_states url_inv_setImage)

lemma url_inv_setImage_all: "url_inv s \<Longrightarrow> url_inv (setImage_all imgs s)"
  by (induction imgs arbitrary: s) (simp_all add: url_inv_setImage)

lemma url_inv_length: "url_inv s \<Longrightarrow> length (urls s) \<le> 1"
  by (simp add: url_inv_def split: option.splits)

lemma url_inv_mount: "url_inv mount"
  by (simp add: url_inv_def mount_simps)

lemma bound_inv_setImage: "bound_inv s \<Longrightarrow> bound_inv (setImage img s)"
  by (simp add: bound_inv_def hook_defs Let_def split: option.splits)

lemma bound_inv_step: "bound_inv s \<Longrightarrow> bound_inv (step e s)"
proof (cases e)
  case (ImageChange fl)
  assume "bound_inv s"
  with ImageChange show ?thesis
    by (cases fl) (simp_all add: onImageChange_def bound_inv_setImage)
next
  case (Log m)
  assume "bound_inv s"
  with Log show ?thesis by (simp add: bound_inv_def logger_def split: option.splits)
next
  case (EngineError x)
  assume "bound_inv s"
  with EngineError show ?thesis by (simp add: bound_inv_def errorHandler_def)
next
  case (InitSettled r)
  assume "bound_inv s"
  with InitSettled show ?thesis
    by (simp add: bound_inv_def init_resume_def split: init_pc.splits sum.splits)
next
  case (RecognizeSettled p r)
  assume "bound_inv s"
  with RecognizeSettled show ?thesis
    by (simp add: bound_inv_def read_resume_def setOcr_def clearError_def Let_def
             split: sum.splits)
qed

lemma bound_inv_run: "bound_inv s \<Longrightarrow> bound_inv (run es s)"
  by (induction es arbitrary: s) (simp_all add: bound_inv_step)

lemma bound_inv_setImage_all: "bound_inv s \<Longrightarrow> bound_inv (setImage_all imgs s)"
  by (induction imgs arbitrary: s) (simp_all add: bound_inv_setImage)

lemma bound_inv_mount: "bound_inv mount"
  by (simp add: bound_inv_def mount_simps)

lemma image_file_setImage: "image_file (setImage img s) = img"
  by (simp add: hook_defs Let_def split: option.splits)

lemma image_file_setImage_all:
  "imgs \<noteq> [] \<Longrightarrow> image_file (setImage_all imgs s) = last imgs"
proof (induction imgs arbitrary: s)
  case Nil
  then show ?case by simp
next
  case (Cons img imgs)
  show ?case
  proof (cases "imgs = []")
    case True
    then show ?thesis by (simp add: image_file_setImage)
  next
    case False
    then show ?thesis using Cons.IH by simp
  qed
qed

subsection \<open>What changes \<open>error\<close> and \<open>ocr\<close>\<close>

lemma step_error_set:
  "error (step ev s) = Some x \<Longrightarrow> error s = Some x \<or> ev = EngineError x"
proof (cases ev)
  case (ImageChange fl)
  assume "error (step ev s) = Some x"
  with ImageChange show ?thesis by (simp add: error_onImageChange)
next
  case (Log m)
  assume "error (step ev s) = Some x"
  with Log show ?thesis by (simp add: logger_frame)
next
  case (EngineError y)
  assume "error (step ev s) = Some x"
  with EngineError show ?thesis by (simp add: errorHandler_def)
next
  case (InitSettled r)
  assume "error (step ev s) = Some x"
  with InitSettled show ?thesis by (simp add: init_resume_frame)
next
  case (RecognizeSettled p r)
  assume "error (step ev s) = Some x"
  with RecognizeSettled show ?thesis
    by (simp add: read_resume_def setOcr_def clearError_def Let_def
             split: if_splits sum.splits)
qed

lemma run_error_set:
  "error (run es s) = Some x \<Longrightarrow> error s = Some x \<or> EngineError x \<in> set es"
proof (induction es arbitrary: s)
  case Nil
  then show ?case by simp
next
  case (Cons ev es)
  from Cons.prems have "error (run es (step ev s)) = Some x" by simp
  from Cons.IH [OF this] show ?case
  proof
    assume "error (step ev s) = Some x"
    from step_error_set [OF this] show ?thesis by auto
  next
    assume "EngineError x \<in> set es"
    then show ?thesis by simp
  qed
qed

lemma step_ocr_changed:
  "ocr (step ev s) \<noteq> ocr s \<Longrightarrow>
   \<exists>p data. ev = RecognizeSettled p (Inr data) \<and> p \<in> fst ` set (pending s) \<and>
            ocr (step ev s) = Some data"
proof (cases ev)
  case (ImageChange fl)
  assume "ocr (step ev s) \<noteq> ocr s"
  with ImageChange show ?thesis by (simp add: ocr_onImageChange)
next
  case (Log m)
  assume "ocr (step ev s) \<noteq> ocr s"
  with Log show ?thesis by (simp add: logger_frame)
next
  case (EngineError y)
  assume "ocr (step ev s) \<noteq> ocr s"
  with EngineError show ?thesis by (simp add: errorHandler_def)
next
  case (InitSettled r)
  assume "ocr (step ev s) \<noteq> ocr s"
  with InitSettled show ?thesis by (simp add: init_resume_frame)
next
  case (RecognizeSettled p r)
  assume "ocr (step ev s) \<noteq> ocr s"
  with RecognizeSettled show ?thesis
    by (cases r)
       (simp_all add: read_resume_def setOcr_def clearError_def Let_def split: if_splits)
qed

lemma step_ocr_kept: "ocr s \<noteq> None \<Longrightarrow> ocr (step ev s) \<noteq> None"
proof (cases "ocr (step ev s) = ocr s")
  case True
  assume "ocr s \<noteq> None"
  with True show ?thesis by simp
next
  case False
  from step_ocr_changed [OF this] show ?thesis by auto
qed

lemma run_ocr_kept: "ocr s \<noteq> None \<Longrightarrow> ocr (run es s) \<noteq> None"
proof (induction es arbitrary: s)
  case Nil
  then show ?case by simp
next
  case (Cons ev es)
  from Cons.prems have "ocr (step ev s) \<noteq> None" by (rule step_ocr_kept)
  from Cons.IH [OF this] show ?case by simp
qed

lemma run_ocr_changed:
  "ocr (run es s) \<noteq> ocr s \<Longrightarrow> \<exists>p data. RecognizeSettled p (Inr data) \<in> set es"
proof (induction es arbitrary: s)
  case Nil
  then show ?case by simp
next
  case (Cons ev es)
  show ?case
  proof (cases "ocr (step ev s) = ocr s")
    case True
    with Cons.prems have "ocr (run es (step ev s)) \<noteq> ocr (step ev s)" by simp
    from Cons.IH [OF this] show ?thesis by auto
  next
    case False
    from step_ocr_changed [OF this] show ?thesis by auto
  qed
qed

lemma step_error_cleared:
  "error s \<noteq> None \<Longrightarrow> error (step ev s) = None \<Longrightarrow>
   \<exists>p data. ev = RecognizeSettled p (Inr data) \<and> p \<in> fst ` set (pending s)"
proof (cases ev)
  case (ImageChange fl)
  assume "error s \<noteq> None" "error (step ev s) = None"
  with ImageChange show ?thesis by (simp add: error_onImageChange)
next
  case (Log m)
  assume "error s \<noteq> None" "error (step ev s) = None"
  with Log show ?thesis by (simp add: logger_frame)
next
  case (EngineError y)
  assume "error s \<noteq> None" "error (step ev s) = None"
  with EngineError show ?thesis by (simp add: errorHandler_def)
next
  case (InitSettled r)
  assume "error s \<noteq> None" "error (step ev s) = None"
  with InitSettled show ?thesis by (simp add: init_resume_frame)
next
  case (RecognizeSettled p r)
  assume "error s \<noteq> None" "error (step ev s) = None"
  with RecognizeSettled show ?thesis
    by (cases r)
       (simp_all add: read_resume_def setOcr_def clearError_def Let_def split: if_splits)
qed

lemma run_error_cleared:
  "error s \<noteq> None \<Longrightarrow> error (run es s) = None \<Longrightarrow>
   \<exists>p data. RecognizeSettled p (Inr data) \<in> set es"
proof (induction es arbitrary: s)
  case Nil
  then show ?case by simp
next
  case (Cons ev es)
  show ?case
  proof (cases "error (step ev s) = None")
    case True
    from step_error_cleared [OF Cons.prems(1) True] show ?thesis by auto
  next
    case False
    from Cons.prems(2) have "error (run es (step ev s)) = None" by simp
    from Cons.IH [OF False this] show ?thesis by auto
  qed
qed

subsection \<open>The value that \<open>logger\<close> sets\<close>

lemma logger_sets:
  "m_status m = ''recognizing text'' \<Longrightarrow>
   logger (Some m) s = s\<lparr>progress := Math_round (number_times (m_progress m) hundred)\<rparr>"
  by (simp add: logger_def)

lemma logger_ignores:
  "m_status m \<noteq> ''recognizing text'' \<Longrightarrow> logger (Some m) s = s"
  by (simp add: logger_def)

subsection \<open>The progress normalizer\<close>

text \<open>
  C6. For a status event \<open>m\<close> whose fraction is a double in \<open>[0, 1]\<close>, \<open>logger\<close> sets the
  progress to \<open>round (fraction * 100)\<close> when the status is \<^verbatim>\<open>"recognizing text"\<close>, and
  for every other status it changes nothing. The product is the one of the source, a
  product of doubles: it is the double nearest to the exact product, the even one
  on a tie. \<open>round\<close> is the rounding of the library, the nearest integer with a tie
  going up. The value set is an integer between 0 and 100.
\<close>

theorem logger_recognizing_text:
  "m_progress m = Finite sg mt ex \<Longrightarrow> is_double (m_progress m) \<Longrightarrow>
   0 \<le> dyadic sg mt ex \<Longrightarrow> dyadic sg mt ex \<le> 1 \<Longrightarrow>
   (m_status m = ''recognizing text'' \<longrightarrow>
      (\<exists>q e n. number_times (m_progress m) hundred = Finite sg q e \<and>
         nearest_double (dyadic sg mt ex * 100) (dyadic sg q e) \<and>
         int n = round (dyadic sg q e) \<and> n \<le> 100 \<and>
         logger (Some m) s = s\<lparr>progress := Finite sg n 0\<rparr>)) \<and>
   (m_status m \<noteq> ''recognizing text'' \<longrightarrow> logger (Some m) s = s)"
proof -
  assume m: "m_progress m = Finite sg mt ex" and d: "is_double (m_progress m)"
    and lo: "0 \<le> dyadic sg mt ex" and hi: "dyadic sg mt ex \<le> 1"
  from d have "is_double (Finite sg mt ex)" unfolding m .
  from product_by_hundred [OF this lo hi]
  obtain q e n where t: "number_times (Finite sg mt ex) hundred = Finite sg q e"
    and nd: "nearest_double (dyadic sg mt ex * 100) (dyadic sg q e)"
    and n: "int n = round (dyadic sg q e)" "n \<le> 100"
    and mr: "Math_round (Finite sg q e) = Finite sg n 0"
    by blast
  have "logger (Some m) s = s\<lparr>progress := Finite sg n 0\<rparr>"
    if "m_status m = ''recognizing text''"
    using that t mr by (simp add: logger_sets m)
  then show ?thesis using t nd n by (auto simp: m logger_ignores)
qed

theorem logger_recognizing_text_witness:
  "is_double (Finite False 8646911284551352 (- 59)) \<and>
   0 \<le> dyadic False 8646911284551352 (- 59) \<and>
   dyadic False 8646911284551352 (- 59) \<le> 1 \<and>
   logger (Some \<lparr>m_jobId = 1, m_status = ''recognizing text'',
                 m_progress = Finite False 8646911284551352 (- 59)\<rparr>) mount
     = mount\<lparr>progress := Finite False 2 0\<rparr> \<and>
   logger (Some half_of_job_1) mount = mount\<lparr>progress := Finite False 50 0\<rparr> \<and>
   logger (Some \<lparr>m_jobId = 0, m_status = ''loading language traineddata'',
                 m_progress = Finite False 1 (- 1)\<rparr>) mount
     = mount"
proof -
  have h: "is_double (Finite False 8646911284551352 (- 59)) \<and>
           0 \<le> dyadic False 8646911284551352 (- 59) \<and>
           dyadic False 8646911284551352 (- 59) \<le> 1"
    by (simp add: bit_length.simps dyadic_def)
  have k: "is_double (Finite False 1 (- 1)) \<and> 0 \<le> dyadic False 1 (- 1) \<and>
           dyadic False 1 (- 1) \<le> 1"
    by (simp add: bit_length.simps dyadic_def)
  have v1: "Math_round (number_times (Finite False 8646911284551352 (- 59)) hundred)
              = Finite False 2 0"
    by (simp add: hundred_def to_double_def round_ties_even_def bit_length.simps Let_def)
  have v2: "Math_round (number_times (Finite False 1 (- 1)) hundred) = Finite False 50 0"
    by (simp add: hundred_def to_double_def round_ties_even_def bit_length.simps Let_def)
  from logger_recognizing_text
         [of "\<lparr>m_jobId = 1, m_status = ''recognizing text'',
               m_progress = Finite False 8646911284551352 (- 59)\<rparr>"
             False 8646911284551352 "- 59" mount]
       logger_recognizing_text [of half_of_job_1 False 1 "- 1" mount]
       logger_recognizing_text
         [of "\<lparr>m_jobId = 0, m_status = ''loading language traineddata'',
               m_progress = Finite False 1 (- 1)\<rparr>" False 1 "- 1" mount]
       h k v1 v2
  show ?thesis by (simp add: half_of_job_1_def logger_def)
qed

subsection \<open>The progress at a submission\<close>

text \<open>
  C10, as the code has it. A submission does not reset the progress: after the file
  input changes, and through every later event that is not a \<^verbatim>\<open>"recognizing text"\<close>
  status event, the progress is the one reported before the submission. The first
  \<^verbatim>\<open>"recognizing text"\<close> event after the submission then sets it, whatever call it
  reports on: \<open>logger\<close> does not read \<^verbatim>\<open>jobId\<close>, so an event of an earlier session that
  is still running changes the progress as one of the new session does.
\<close>

theorem progress_not_reset:
  "list_all (\<lambda>e. \<not> is_recognizing_text e) es \<Longrightarrow>
   progress (run es (step (ImageChange fl) s)) = progress s \<and>
   (m_status m = ''recognizing text'' \<longrightarrow>
      progress (step (Log (Some m)) (run es (step (ImageChange fl) s)))
        = Math_round (number_times (m_progress m) hundred))"
  by (simp add: progress_run progress_onImageChange logger_def)

theorem progress_not_reset_witness:
  "list_all (\<lambda>e. \<not> is_recognizing_text e) [Log (Some initializing_api), InitSettled (Inr ())] \<and>
   progress (run [Log (Some initializing_api), InitSettled (Inr ())]
               (step (ImageChange (Some 7)) overlapping)) = Finite False 25 0 \<and>
   m_status half_of_job_1 = ''recognizing text'' \<and>
   progress (step (Log (Some half_of_job_1))
               (run [Log (Some initializing_api), InitSettled (Inr ())]
                  (step (ImageChange (Some 7)) overlapping))) = Finite False 50 0"
proof -
  have h: "list_all (\<lambda>e. \<not> is_recognizing_text e)
             [Log (Some initializing_api), InitSettled (Inr ())]"
    by (simp add: initializing_api_def)
  have p: "progress overlapping = Finite False 25 0"
    by (simp add: overlapping_def quarter_of_job_1_def mount_def initial_def hook_defs
          hundred_def to_double_def round_ties_even_def bit_length.simps Let_def)
  have v: "Math_round (number_times (m_progress half_of_job_1) hundred) = Finite False 50 0"
    by (simp add: half_of_job_1_def hundred_def to_double_def round_ties_even_def
          bit_length.simps Let_def)
  have st: "m_status half_of_job_1 = ''recognizing text''"
    by (simp add: half_of_job_1_def)
  from progress_not_reset [OF h, of "Some 7" overlapping half_of_job_1] h p v st
  show ?thesis by simp
qed

text \<open>
  C10 as stated fails. Image 1 is being read and has reported 25 percent when image 2
  is submitted. The next event reports on the call of image 1, not on the call of
  image 2, and it moves the progress to 50.
\<close>

theorem progress_of_older_session_counterexample:
  "pending overlapping = [(1, 1), (2, 2)] \<and>
   progress overlapping = Finite False 25 0 \<and>
   m_jobId half_of_job_1 = 1 \<and>
   progress (step (Log (Some half_of_job_1)) overlapping) = Finite False 50 0"
  by (simp add: overlapping_def quarter_of_job_1_def half_of_job_1_def mount_def initial_def
        hook_defs hundred_def to_double_def round_ties_even_def bit_length.simps Let_def)

subsection \<open>Live object URLs\<close>

text \<open>
  C8. From any state the component reaches, through any sequence of calls
  \<^verbatim>\<open>setImage(img)\<close>, \<^verbatim>\<open>null\<close> included, at most one object URL is live in every state
  gone through, the states between the cleanup and the effect included. After the
  calls the number of live URLs is 1 if an image is set and 0 if it is \<^verbatim>\<open>null\<close>, and the
  image set is the last one passed.
\<close>

theorem one_live_object_url:
  "list_all (\<lambda>t. length (urls t) \<le> 1) (setImage_all_states imgs (run es mount)) \<and>
   length (urls (setImage_all imgs (run es mount)))
     = (case image_file (setImage_all imgs (run es mount)) of None \<Rightarrow> 0 | Some f \<Rightarrow> 1) \<and>
   (imgs \<noteq> [] \<longrightarrow> image_file (setImage_all imgs (run es mount)) = last imgs)"
proof -
  let ?s = "run es mount"
  let ?t = "setImage_all imgs ?s"
  have u: "url_inv ?s" using url_inv_mount by (rule url_inv_run)
  have b: "bound_inv ?s" using bound_inv_mount by (rule bound_inv_run)
  from u have "list_all url_inv (setImage_all_states imgs ?s)"
    by (rule url_inv_setImage_all_states)
  then have 1: "list_all (\<lambda>t. length (urls t) \<le> 1) (setImage_all_states imgs ?s)"
    unfolding list_all_iff using url_inv_length by blast
  from u have "url_inv ?t" by (rule url_inv_setImage_all)
  moreover from b have "bound_inv ?t" by (rule bound_inv_setImage_all)
  ultimately have 2: "length (urls ?t) = (case image_file ?t of None \<Rightarrow> 0 | Some f \<Rightarrow> 1)"
    by (auto simp: url_inv_def bound_inv_def split: option.splits)
  show ?thesis using 1 2 by (simp add: image_file_setImage_all)
qed

theorem one_live_object_url_witness:
  "[Some 4, Some 5, None] \<noteq> [] \<and>
   map (\<lambda>t. length (urls t)) (setImage_all_states [Some 4, Some 5, None] mount)
     = [0, 0, 0, 1, 1, 1, 1, 0, 1, 1, 1, 1, 0, 0, 0, 0] \<and>
   urls (setImage_all [Some 4, Some 5] mount) = [1] \<and>
   urls (setImage_all [Some 4, Some 5, None] mount) = [] \<and>
   image_file (setImage_all [Some 4, Some 5, None] mount) = None"
  using one_live_object_url [of "[Some 4, Some 5, None]" "[]"]
  by (simp add: mount_def initial_def hook_defs setImage_states_def Let_def)

subsection \<open>The settlement of a session, superseded or not\<close>

text \<open>
  C1, as the code has it. \<^verbatim>\<open>read\<close> keeps no token of its session, so when the
  \<^verbatim>\<open>recognize\<close> promise \<open>p\<close> of any session settles while pending, also one started
  before a later submission, its outcome is applied: the progress is never altered and
  a rejection leaves \<open>ocr\<close> and \<open>error\<close> as they were, but \<open>loading\<close> becomes false, and
  a resolution stores its data in \<open>ocr\<close> and clears \<open>error\<close>.
\<close>

theorem settlement_applied:
  "p \<in> fst ` set (pending s) \<Longrightarrow>
   progress (step (RecognizeSettled p r) s) = progress s \<and>
   \<not> loading (step (RecognizeSettled p r) s) \<and>
   ocr (step (RecognizeSettled p (Inl e)) s) = ocr s \<and>
   error (step (RecognizeSettled p (Inl e)) s) = error s \<and>
   ocr (step (RecognizeSettled p (Inr data)) s) = Some data \<and>
   error (step (RecognizeSettled p (Inr data)) s) = None"
  using pending_settled_frame [of p s r] pending_settled_frame [of p s "Inl e"]
    pending_settled_frame [of p s "Inr data"]
  by simp

theorem settlement_applied_witness:
  "1 \<in> fst ` set (pending two_submissions) \<and>
   fst (last (pending two_submissions)) = 2 \<and>
   \<not> loading (step (RecognizeSettled 1 (Inl ''x'')) two_submissions) \<and>
   ocr (step (RecognizeSettled 1 (Inl ''x'')) two_submissions) = None \<and>
   ocr (step (RecognizeSettled 1 (Inr pageA)) two_submissions) = Some pageA"
proof -
  have h: "1 \<in> fst ` set (pending two_submissions)"
    by (simp add: two_submissions_def mount_def initial_def hook_defs Let_def)
  have l: "fst (last (pending two_submissions)) = 2"
    by (simp add: two_submissions_def mount_def initial_def hook_defs Let_def)
  have o: "ocr two_submissions = None"
    by (simp add: two_submissions_def mount_def initial_def hook_defs Let_def)
  from settlement_applied [OF h, of "Inl ''x''" "''x''" pageA] h l o show ?thesis by simp
qed

text \<open>
  C1 as stated fails. Image 1 and then image 2 are submitted; when the promise of
  image 1, the superseded session, resolves, its page is stored and \<open>loading\<close> becomes
  false while the promise of image 2 is still pending.
\<close>

theorem superseded_settlement_counterexample:
  "pending two_submissions = [(1, 1), (2, 2)] \<and>
   ocr two_submissions = None \<and> loading two_submissions \<and>
   ocr (step (RecognizeSettled 1 (Inr pageA)) two_submissions) = Some pageA \<and>
   \<not> loading (step (RecognizeSettled 1 (Inr pageA)) two_submissions) \<and>
   pending (step (RecognizeSettled 1 (Inr pageA)) two_submissions) = [(2, 2)]"
  by (simp add: two_submissions_def mount_def initial_def hook_defs Let_def)

subsection \<open>\<open>loading\<close>\<close>




subsection \<open>\<open>error\<close> and \<open>ocr\<close> together\<close>

text \<open>
  C5, as the code has it. Committing a result clears the error: when a pending promise
  resolves with \<open>data\<close>, \<open>ocr\<close> is \<open>data\<close> and \<open>error\<close> is \<^verbatim>\<open>null\<close>. Committing an error
  does not clear the result: \<open>errorHandler\<close> sets \<open>error\<close> and leaves \<open>ocr\<close> as it was.
\<close>

theorem result_clears_error_only:
  "(p \<in> fst ` set (pending s) \<longrightarrow>
      ocr (step (RecognizeSettled p (Inr data)) s) = Some data \<and>
      error (step (RecognizeSettled p (Inr data)) s) = None) \<and>
   error (step (EngineError e) s) = Some e \<and>
   ocr (step (EngineError e) s) = ocr s"
  by (simp add: read_resume_def setOcr_def clearError_def errorHandler_def Let_def)

theorem result_clears_error_only_witness:
  "2 \<in> fst ` set (pending (step (ImageChange (Some 2)) failed_once)) \<and>
   error (step (ImageChange (Some 2)) failed_once) = Some ''unsupported format'' \<and>
   error (step (RecognizeSettled 2 (Inr pageA)) (step (ImageChange (Some 2)) failed_once))
     = None \<and>
   ocr (step (RecognizeSettled 2 (Inr pageA)) (step (ImageChange (Some 2)) failed_once))
     = Some pageA"
proof -
  have h: "2 \<in> fst ` set (pending (step (ImageChange (Some 2)) failed_once))"
    by (simp add: failed_once_def mount_def initial_def hook_defs Let_def)
  have e: "error (step (ImageChange (Some 2)) failed_once) = Some ''unsupported format''"
    by (simp add: failed_once_def mount_def initial_def hook_defs Let_def)
  from result_clears_error_only
         [of 2 "step (ImageChange (Some 2)) failed_once" pageA "''x''"] h e
  show ?thesis by simp
qed

text \<open>
  C5 as stated fails. After a first image read with success and a second one that
  fails, \<open>error\<close> and \<open>ocr\<close> are both set.
\<close>

theorem error_and_result_counterexample:
  "error (run success_then_failure mount) = Some ''unsupported format'' \<and>
   ocr (run success_then_failure mount) \<noteq> None"
  by (simp add: success_then_failure_def mount_def initial_def hook_defs Let_def)

subsection \<open>A recognition that rejects\<close>

text \<open>
  C3, as the code has it. \<^verbatim>\<open>catch {}\<close> drops the rejection: when the pending promise
  \<open>p\<close> rejects, \<open>loading\<close> becomes false and \<open>error\<close> and \<open>ocr\<close> stay as they were. The
  error reaches the state through \<open>errorHandler\<close> only: when the worker calls it with
  \<open>e\<close> and then rejects the promise, the state has \<open>loading\<close> false, \<open>error\<close> equal to
  \<open>e\<close>, and \<open>ocr\<close> still as it was before, and so it is for a whole failing submission
  of a new image \<open>f\<close>. No other event sets an error: along any run, an error \<open>x\<close> in
  the state was there before or was passed to \<open>errorHandler\<close>. And no event clears the
  result: a page in \<open>ocr\<close> stays through any run, and \<open>ocr\<close> changes only where a
  \<^verbatim>\<open>recognize\<close> promise resolves.
\<close>

theorem recognition_rejected:
  "p \<in> fst ` set (pending s) \<Longrightarrow>
   \<not> loading (step (RecognizeSettled p (Inl e)) s) \<and>
   error (step (RecognizeSettled p (Inl e)) s) = error s \<and>
   ocr (step (RecognizeSettled p (Inl e)) s) = ocr s \<and>
   \<not> loading (run [EngineError e, RecognizeSettled p (Inl e)] s) \<and>
   error (run [EngineError e, RecognizeSettled p (Inl e)] s) = Some e \<and>
   ocr (run [EngineError e, RecognizeSettled p (Inl e)] s) = ocr s \<and>
   (image_file t \<noteq> Some f \<longrightarrow>
      \<not> loading (run [ImageChange (Some f), EngineError e,
                      RecognizeSettled (length (calls t)) (Inl e)] t) \<and>
      error (run [ImageChange (Some f), EngineError e,
                  RecognizeSettled (length (calls t)) (Inl e)] t) = Some e \<and>
      ocr (run [ImageChange (Some f), EngineError e,
                RecognizeSettled (length (calls t)) (Inl e)] t) = ocr t) \<and>
   (error (step ev t) = Some x \<longrightarrow> error t = Some x \<or> ev = EngineError x) \<and>
   (error (run es t) = Some x \<longrightarrow> error t = Some x \<or> EngineError x \<in> set es) \<and>
   (ocr t \<noteq> None \<longrightarrow> ocr (run es t) \<noteq> None) \<and>
   (ocr (run es t) \<noteq> ocr t \<longrightarrow> (\<exists>q data. RecognizeSettled q (Inr data) \<in> set es))"
proof -
  assume p: "p \<in> fst ` set (pending s)"
  have 1: "\<not> loading (step (RecognizeSettled p (Inl e)) s) \<and>
           error (step (RecognizeSettled p (Inl e)) s) = error s \<and>
           ocr (step (RecognizeSettled p (Inl e)) s) = ocr s \<and>
           \<not> loading (run [EngineError e, RecognizeSettled p (Inl e)] s) \<and>
           error (run [EngineError e, RecognizeSettled p (Inl e)] s) = Some e \<and>
           ocr (run [EngineError e, RecognizeSettled p (Inl e)] s) = ocr s"
    using p by (simp add: read_resume_def errorHandler_def Let_def)
  have 2: "\<not> loading (run [ImageChange (Some f), EngineError e,
                            RecognizeSettled (length (calls t)) (Inl e)] t) \<and>
           error (run [ImageChange (Some f), EngineError e,
                       RecognizeSettled (length (calls t)) (Inl e)] t) = Some e \<and>
           ocr (run [ImageChange (Some f), EngineError e,
                     RecognizeSettled (length (calls t)) (Inl e)] t) = ocr t"
    if n: "image_file t \<noteq> Some f"
  proof -
    let ?u = "errorHandler e (setImage (Some f) t)"
    from setImage_new [OF n]
    have "pending (setImage (Some f) t) = pending t @ [(length (calls t), f)]" by simp
    then have "length (calls t) \<in> fst ` set (pending ?u)" by (simp add: errorHandler_def)
    from pending_settled_frame [OF this, of "Inl e"]
    have "\<not> loading (read_resume (length (calls t)) (Inl e) ?u)"
      "error (read_resume (length (calls t)) (Inl e) ?u) = error ?u"
      "ocr (read_resume (length (calls t)) (Inl e) ?u) = ocr ?u"
      by simp_all
    moreover have "error ?u = Some e" by (simp add: errorHandler_def)
    moreover have "ocr ?u = ocr t"
      using ocr_onImageChange [of "Some f" t] by (simp add: errorHandler_def onImageChange_def)
    ultimately show ?thesis by (simp add: onImageChange_def)
  qed
  show ?thesis
    using 1 2 step_error_set [of ev t x] run_error_set [of es t x] run_ocr_kept [of t es]
      run_ocr_changed [of es t]
    by blast
qed

theorem recognition_rejected_witness:
  "1 \<in> fst ` set (pending (step (ImageChange (Some 1)) mount)) \<and>
   \<not> loading (run [EngineError ''bad'', RecognizeSettled 1 (Inl ''bad'')]
                 (step (ImageChange (Some 1)) mount)) \<and>
   error (run [EngineError ''bad'', RecognizeSettled 1 (Inl ''bad'')]
            (step (ImageChange (Some 1)) mount)) = Some ''bad'' \<and>
   image_file (run [ImageChange (Some 1), RecognizeSettled 1 (Inr pageA)] mount) \<noteq> Some 2 \<and>
   ocr (run [ImageChange (Some 1), RecognizeSettled 1 (Inr pageA)] mount) \<noteq> None \<and>
   error (run success_then_failure mount) = Some ''unsupported format'' \<and>
   error (run [ImageChange (Some 1), RecognizeSettled 1 (Inr pageA)] mount)
     \<noteq> Some ''unsupported format'' \<and>
   EngineError ''unsupported format'' \<in> set (drop 2 success_then_failure) \<and>
   ocr (run success_then_failure mount) = Some pageA \<and>
   ocr (run [RecognizeSettled 1 (Inr pageA)] (step (ImageChange (Some 1)) mount))
     \<noteq> ocr (step (ImageChange (Some 1)) mount) \<and>
   (\<exists>q data. RecognizeSettled q (Inr data) \<in> set [RecognizeSettled 1 (Inr pageA)])"
proof -
  let ?t = "run [ImageChange (Some 1), RecognizeSettled 1 (Inr pageA)] mount"
  let ?es = "[ImageChange (Some 2), EngineError ''unsupported format'',
              RecognizeSettled 2 (Inl ''unsupported format'')]"
  have h: "1 \<in> fst ` set (pending (step (ImageChange (Some 1)) mount))"
    by (simp add: mount_def initial_def hook_defs Let_def)
  have t: "image_file ?t \<noteq> Some 2" "ocr ?t \<noteq> None" "error ?t \<noteq> Some ''unsupported format''"
    "length (calls ?t) = 2"
    by (simp_all add: mount_def initial_def hook_defs Let_def)
  have r: "run success_then_failure mount = run ?es ?t" "drop 2 success_then_failure = ?es"
    by (simp_all add: success_then_failure_def)
  have e: "error (run ?es ?t) = Some ''unsupported format''"
    "ocr (run ?es ?t) = Some pageA"
    by (simp_all add: mount_def initial_def hook_defs Let_def)
  have c: "ocr (run [RecognizeSettled 1 (Inr pageA)] (step (ImageChange (Some 1)) mount))
             \<noteq> ocr (step (ImageChange (Some 1)) mount)"
    by (simp add: mount_def initial_def hook_defs Let_def)
  from recognition_rejected
         [OF h, where e = "''bad''" and t = ?t and f = 2 and es = ?es
            and x = "''unsupported format''"]
       recognition_rejected
         [OF h, where t = "step (ImageChange (Some 1)) mount"
            and es = "[RecognizeSettled 1 (Inr pageA)]"]
       h t r e c
  show ?thesis by simp
qed

text \<open>
  C3 as stated fails. After a first image read with success, the rejection for a second
  image, reported to \<open>errorHandler\<close> too, leaves the first page in \<open>ocr\<close>; and a
  rejection that the worker does not report to \<open>errorHandler\<close> leaves \<open>error\<close> at
  \<^verbatim>\<open>null\<close>.
\<close>

theorem recognition_rejected_counterexample:
  "ocr (run success_then_failure mount) = Some pageA \<and>
   pending (run success_then_failure mount) = [] \<and>
   \<not> loading (run success_then_failure mount) \<and>
   error (run [ImageChange (Some 1), RecognizeSettled 1 (Inl ''unsupported format'')] mount)
     = None"
  by (simp add: success_then_failure_def mount_def initial_def hook_defs Let_def)

subsection \<open>The error at a submission\<close>

text \<open>
  C7, as the code has it. \<^verbatim>\<open>clearError()\<close> is called after the \<^verbatim>\<open>await\<close>, not before:
  a change of the file input leaves \<open>error\<close> as it was, so does the rejection of a
  \<^verbatim>\<open>recognize\<close> promise, and \<open>error\<close> is cleared when a pending promise resolves.
  Nothing else clears it: an event after which a previous error is gone is the
  resolution of a pending \<^verbatim>\<open>recognize\<close> promise, and a run after which it is gone holds
  such a resolution.
\<close>

theorem error_cleared_on_success:
  "error (step (ImageChange fl) s) = error s \<and>
   error (step (RecognizeSettled p (Inl e)) s) = error s \<and>
   (p \<in> fst ` set (pending s) \<longrightarrow> error (step (RecognizeSettled p (Inr data)) s) = None) \<and>
   (error s \<noteq> None \<longrightarrow> error (step ev s) = None \<longrightarrow>
      (\<exists>q d. ev = RecognizeSettled q (Inr d) \<and> q \<in> fst ` set (pending s))) \<and>
   (error s \<noteq> None \<longrightarrow> error (run es s) = None \<longrightarrow>
      (\<exists>q d. RecognizeSettled q (Inr d) \<in> set es))"
proof -
  have "error (step (ImageChange fl) s) = error s \<and>
        error (step (RecognizeSettled p (Inl e)) s) = error s \<and>
        (p \<in> fst ` set (pending s) \<longrightarrow>
           error (step (RecognizeSettled p (Inr data)) s) = None)"
    by (simp add: error_onImageChange read_resume_def setOcr_def clearError_def Let_def)
  moreover have "error s \<noteq> None \<longrightarrow> error (step ev s) = None \<longrightarrow>
      (\<exists>q d. ev = RecognizeSettled q (Inr d) \<and> q \<in> fst ` set (pending s))"
    using step_error_cleared [of s ev] by blast
  moreover have "error s \<noteq> None \<longrightarrow> error (run es s) = None \<longrightarrow>
      (\<exists>q d. RecognizeSettled q (Inr d) \<in> set es)"
    using run_error_cleared [of s es] by blast
  ultimately show ?thesis by simp
qed

theorem error_cleared_on_success_witness:
  "2 \<in> fst ` set (pending (step (ImageChange (Some 2)) failed_once)) \<and>
   error (step (ImageChange (Some 2)) failed_once) \<noteq> None \<and>
   error (step (RecognizeSettled 2 (Inr page_92_5)) (step (ImageChange (Some 2)) failed_once))
     = None \<and>
   error (run [Log None, RecognizeSettled 2 (Inr page_92_5)]
            (step (ImageChange (Some 2)) failed_once)) = None \<and>
   (\<exists>q d. RecognizeSettled q (Inr d) \<in> set [Log None, RecognizeSettled 2 (Inr page_92_5)])"
proof -
  let ?s = "step (ImageChange (Some 2)) failed_once"
  have h: "2 \<in> fst ` set (pending ?s)"
    by (simp add: failed_once_def mount_def initial_def hook_defs Let_def)
  have e: "error ?s \<noteq> None"
    by (simp add: failed_once_def mount_def initial_def hook_defs Let_def)
  have r: "error (run [Log None, RecognizeSettled 2 (Inr page_92_5)] ?s) = None"
    by (simp add: failed_once_def mount_def initial_def hook_defs Let_def)
  from error_cleared_on_success
         [where s = ?s and p = 2 and data = page_92_5
            and ev = "RecognizeSettled 2 (Inr page_92_5)"
            and es = "[Log None, RecognizeSettled 2 (Inr page_92_5)]"]
       h e r
  show ?thesis by simp
qed

text \<open>
  C7 as stated fails. After a submission that failed, the submission of image 2 starts
  a new session (\<open>loading\<close> is true) and \<open>error\<close> still holds the previous error.
\<close>

theorem error_kept_counterexample:
  "error failed_once = Some ''unsupported format'' \<and>
   image_file failed_once = Some 1 \<and>
   image_file (step (ImageChange (Some 2)) failed_once) = Some 2 \<and>
   loading (step (ImageChange (Some 2)) failed_once) \<and>
   error (step (ImageChange (Some 2)) failed_once) = Some ''unsupported format''"
  by (simp add: failed_once_def mount_def initial_def hook_defs Let_def)

subsection \<open>A bootstrap that rejects\<close>

text \<open>
  C2, as the code has it. Nothing observes the promise of \<^verbatim>\<open>init()\<close>: the settlement
  of a step of the bootstrap changes none of \<open>error\<close>, \<open>ocr\<close> and \<open>loading\<close>. Once a step of
  the bootstrap has rejected, \<^verbatim>\<open>init\<close> stays rejected through every later run \<open>es\<close>;
  the submission of a new image \<open>f\<close> then sets \<open>loading\<close>, makes the call
  \<^verbatim>\<open>worker.recognize(f)\<close> all the same, and leaves \<open>error\<close> and \<open>ocr\<close> as they were; and
  when that call rejects, \<open>loading\<close> is false and \<open>error\<close> and \<open>ocr\<close> are still the ones
  from before the submission.
\<close>

theorem bootstrap_rejection_unobserved:
  "init_pc s = InitRejected e \<Longrightarrow> image_file (run es s) \<noteq> Some f \<Longrightarrow>
   error (step (InitSettled r) t) = error t \<and>
   ocr (step (InitSettled r) t) = ocr t \<and>
   loading (step (InitSettled r) t) = loading t \<and>
   init_pc (run es s) = InitRejected e \<and>
   loading (step (ImageChange (Some f)) (run es s)) \<and>
   calls (step (ImageChange (Some f)) (run es s)) = calls (run es s) @ [Recognize f] \<and>
   error (step (ImageChange (Some f)) (run es s)) = error (run es s) \<and>
   ocr (step (ImageChange (Some f)) (run es s)) = ocr (run es s) \<and>
   \<not> loading (run [ImageChange (Some f), RecognizeSettled (length (calls (run es s))) (Inl x)]
                 (run es s)) \<and>
   error (run [ImageChange (Some f), RecognizeSettled (length (calls (run es s))) (Inl x)]
            (run es s)) = error (run es s) \<and>
   ocr (run [ImageChange (Some f), RecognizeSettled (length (calls (run es s))) (Inl x)]
          (run es s)) = ocr (run es s)"
proof -
  assume r: "init_pc s = InitRejected e" and n: "image_file (run es s) \<noteq> Some f"
  let ?t = "run es s"
  let ?u = "setImage (Some f) ?t"
  from r have 1: "init_pc ?t = InitRejected e" by (rule init_pc_run)
  from setImage_new [OF n]
  have 2: "loading ?u" and 3: "calls ?u = calls ?t @ [Recognize f]"
    and 4: "pending ?u = pending ?t @ [(length (calls ?t), f)]"
    by simp_all
  have 5: "error ?u = error ?t" "ocr ?u = ocr ?t"
    using error_onImageChange [of "Some f" ?t] ocr_onImageChange [of "Some f" ?t]
    by (simp_all add: onImageChange_def)
  from 4 have "length (calls ?t) \<in> fst ` set (pending ?u)" by simp
  from pending_settled_frame [OF this, of "Inl x"]
  have 6: "\<not> loading (read_resume (length (calls ?t)) (Inl x) ?u)"
    "error (read_resume (length (calls ?t)) (Inl x) ?u) = error ?u"
    "ocr (read_resume (length (calls ?t)) (Inl x) ?u) = ocr ?u"
    by simp_all
  show ?thesis using 1 2 3 5 6 by (simp add: onImageChange_def init_resume_frame)
qed

theorem bootstrap_rejection_unobserved_witness:
  "init_pc bootstrap_rejected = InitRejected ''load failed'' \<and>
   image_file (run [Log None] bootstrap_rejected) \<noteq> Some 1 \<and>
   loading (step (ImageChange (Some 1)) (run [Log None] bootstrap_rejected)) \<and>
   calls (step (ImageChange (Some 1)) (run [Log None] bootstrap_rejected))
     = [Load, Recognize 1] \<and>
   error (run [ImageChange (Some 1), RecognizeSettled 1 (Inl ''not initialized'')]
            (run [Log None] bootstrap_rejected)) = None"
proof -
  have h1: "init_pc bootstrap_rejected = InitRejected ''load failed''"
    by (simp add: bootstrap_rejected_def mount_def initial_def hook_defs)
  have h2: "image_file (run [Log None] bootstrap_rejected) \<noteq> Some 1"
    by (simp add: bootstrap_rejected_def mount_def initial_def hook_defs)
  have c: "calls (run [Log None] bootstrap_rejected) = [Load]"
    by (simp add: bootstrap_rejected_def mount_def initial_def hook_defs)
  have e: "error (run [Log None] bootstrap_rejected) = None"
    by (simp add: bootstrap_rejected_def mount_def initial_def hook_defs)
  from bootstrap_rejection_unobserved [OF h1 h2, where x = "''not initialized''"] h1 h2 c e
  show ?thesis by simp
qed

text \<open>
  C2 as stated fails. After \<^verbatim>\<open>worker.load()\<close> has rejected, the submission of image 1
  makes the call \<open>Recognize 1\<close>, \<open>loading\<close> is true and \<open>error\<close> is \<^verbatim>\<open>null\<close>.
\<close>

theorem bootstrap_rejected_counterexample:
  "init_pc bootstrap_rejected = InitRejected ''load failed'' \<and>
   calls (step (ImageChange (Some 1)) bootstrap_rejected) = [Load, Recognize 1] \<and>
   loading (step (ImageChange (Some 1)) bootstrap_rejected) \<and>
   error (step (ImageChange (Some 1)) bootstrap_rejected) = None"
  by (simp add: bootstrap_rejected_def mount_def initial_def hook_defs Let_def)

subsection \<open>One submission that succeeds\<close>

text \<open>
  C9, as the code has it. In any state, a new image \<open>f\<close> is submitted; the worker then
  reports status events only (the bootstrap resolving, calls of \<open>logger\<close>), and the
  \<^verbatim>\<open>recognize\<close> call of the submission resolves with \<open>data\<close>. The state then has
  \<open>loading\<close> false, \<open>ocr\<close> equal to \<open>data\<close> unchanged and \<open>error\<close> \<^verbatim>\<open>null\<close>. The commit does
  not set the progress: it is the value before the submission when no event had the
  status \<^verbatim>\<open>"recognizing text"\<close>, and otherwise the rounded percentage of the last event
  \<open>m\<close> that had it, which is 100 when the fraction of \<open>m\<close> is 1.
\<close>

theorem single_submission_committed:
  "image_file s \<noteq> Some f \<Longrightarrow>
   list_all is_status_event es1 \<Longrightarrow> list_all is_status_event es2 \<Longrightarrow>
   list_all (\<lambda>e. \<not> is_recognizing_text e) es2 \<Longrightarrow>
   \<not> loading (run (single_submission s f es2 data) s) \<and>
   ocr (run (single_submission s f es2 data) s) = Some data \<and>
   error (run (single_submission s f es2 data) s) = None \<and>
   progress (run (single_submission s f es2 data) s) = progress s \<and>
   (m_status m = ''recognizing text'' \<longrightarrow>
      \<not> loading (run (single_submission s f (es1 @ Log (Some m) # es2) data) s) \<and>
      ocr (run (single_submission s f (es1 @ Log (Some m) # es2) data) s) = Some data \<and>
      error (run (single_submission s f (es1 @ Log (Some m) # es2) data) s) = None \<and>
      progress (run (single_submission s f (es1 @ Log (Some m) # es2) data) s)
        = Math_round (number_times (m_progress m) hundred) \<and>
      (m_progress m = Finite sg mt ex \<longrightarrow> is_double (m_progress m) \<longrightarrow>
       dyadic sg mt ex = 1 \<longrightarrow>
         progress (run (single_submission s f (es1 @ Log (Some m) # es2) data) s)
           = Finite False 100 0))"
proof -
  assume n: "image_file s \<noteq> Some f"
    and s1: "list_all is_status_event es1" and s2: "list_all is_status_event es2"
    and q2: "list_all (\<lambda>e. \<not> is_recognizing_text e) es2"
  let ?p = "length (calls s)"
  let ?s0 = "step (ImageChange (Some f)) s"
  have p0: "?p \<in> fst ` set (pending ?s0)"
    using setImage_new [OF n] by (simp add: onImageChange_def)
  have g0: "progress ?s0 = progress s" by (simp add: progress_onImageChange)
  have commit: "\<not> loading (read_resume ?p (Inr data) u) \<and>
                ocr (read_resume ?p (Inr data) u) = Some data \<and>
                error (read_resume ?p (Inr data) u) = None \<and>
                progress (read_resume ?p (Inr data) u) = progress u"
    if "pending u = pending ?s0" for u
  proof -
    from that p0 have "?p \<in> fst ` set (pending u)" by simp
    from pending_settled_frame [OF this, of "Inr data"] show ?thesis by simp
  qed
  have A: "\<not> loading (run (single_submission s f es2 data) s) \<and>
           ocr (run (single_submission s f es2 data) s) = Some data \<and>
           error (run (single_submission s f es2 data) s) = None \<and>
           progress (run (single_submission s f es2 data) s) = progress s"
  proof -
    have "pending (run es2 ?s0) = pending ?s0" using status_run_frame [OF s2] by simp
    from commit [OF this] progress_run [OF q2, of ?s0] g0
    show ?thesis by (simp add: single_submission_def run_append)
  qed
  have B: "\<not> loading (run (single_submission s f (es1 @ Log (Some m) # es2) data) s) \<and>
           ocr (run (single_submission s f (es1 @ Log (Some m) # es2) data) s) = Some data \<and>
           error (run (single_submission s f (es1 @ Log (Some m) # es2) data) s) = None \<and>
           progress (run (single_submission s f (es1 @ Log (Some m) # es2) data) s)
             = Math_round (number_times (m_progress m) hundred)"
    if st: "m_status m = ''recognizing text''"
  proof -
    let ?s1 = "run es1 ?s0"
    let ?s2 = "step (Log (Some m)) ?s1"
    let ?s3 = "run es2 ?s2"
    have "pending ?s1 = pending ?s0" using status_run_frame [OF s1] by simp
    then have "pending ?s2 = pending ?s0" by (simp add: logger_frame)
    then have p3: "pending ?s3 = pending ?s0" using status_run_frame [OF s2, of ?s2] by simp
    have "progress ?s2 = Math_round (number_times (m_progress m) hundred)"
      using st by (simp add: logger_sets)
    then have g3: "progress ?s3 = Math_round (number_times (m_progress m) hundred)"
      using progress_run [OF q2, of ?s2] by simp
    have "run (single_submission s f (es1 @ Log (Some m) # es2) data) s
            = read_resume ?p (Inr data) ?s3"
      by (simp add: single_submission_def run_append)
    then show ?thesis using commit [OF p3] g3 by simp
  qed
  have C: "Math_round (number_times (m_progress m) hundred) = Finite False 100 0"
    if "m_progress m = Finite sg mt ex" "is_double (m_progress m)" "dyadic sg mt ex = 1"
    using product_of_one [of sg mt ex] that by simp
  show ?thesis using A B C by simp
qed

theorem single_submission_committed_witness:
  "image_file mount \<noteq> Some 1 \<and>
   list_all is_status_event [InitSettled (Inr ()), Log (Some quarter_of_job_1)] \<and>
   list_all is_status_event [InitSettled (Inr ())] \<and>
   list_all (\<lambda>e. \<not> is_recognizing_text e) [InitSettled (Inr ())] \<and>
   progress (run (single_submission mount 1 [InitSettled (Inr ())] page_92_5) mount)
     = Finite False 0 0 \<and>
   m_status \<lparr>m_jobId = 1, m_status = ''recognizing text'', m_progress = Finite False 2 (- 1)\<rparr>
     = ''recognizing text'' \<and>
   is_double (Finite False 2 (- 1)) \<and> dyadic False 2 (- 1) = 1 \<and>
   progress (run (single_submission mount 1
                    ([InitSettled (Inr ()), Log (Some quarter_of_job_1)] @
                     Log (Some \<lparr>m_jobId = 1, m_status = ''recognizing text'',
                                 m_progress = Finite False 2 (- 1)\<rparr>) #
                     [InitSettled (Inr ())]) page_92_5) mount) = Finite False 100 0 \<and>
   ocr (run (single_submission mount 1
                    ([InitSettled (Inr ()), Log (Some quarter_of_job_1)] @
                     Log (Some \<lparr>m_jobId = 1, m_status = ''recognizing text'',
                                 m_progress = Finite False 2 (- 1)\<rparr>) #
                     [InitSettled (Inr ())]) page_92_5) mount) = Some page_92_5 \<and>
   confidence page_92_5 = 92.5 \<and> length (words page_92_5) = 10 \<and>
   length (lines page_92_5) = 2"
proof -
  have h0: "image_file mount \<noteq> Some 1" by (simp add: mount_simps)
  have h1: "list_all is_status_event [InitSettled (Inr ()), Log (Some quarter_of_job_1)]"
    by simp
  have h2: "list_all is_status_event [InitSettled (Inr ())]" by simp
  have h3: "list_all (\<lambda>e. \<not> is_recognizing_text e) [InitSettled (Inr ())]" by simp
  have d: "is_double (Finite False 2 (- 1)) \<and> dyadic False 2 (- 1) = 1"
    by (simp add: bit_length.simps dyadic_def)
  have pg: "confidence page_92_5 = 92.5 \<and> length (words page_92_5) = 10 \<and>
            length (lines page_92_5) = 2"
    by (simp add: page_92_5_def)
  note T = single_submission_committed
         [OF h0 h1 h2 h3, where data = page_92_5 and sg = False and mt = 2 and ex = "- 1"
            and m = "\<lparr>m_jobId = 1, m_status = ''recognizing text'',
                       m_progress = Finite False 2 (- 1)\<rparr>"]
  have st: "m_status \<lparr>m_jobId = 1, m_status = ''recognizing text'',
                        m_progress = Finite False 2 (- 1)\<rparr> = ''recognizing text''"
    and mp: "m_progress \<lparr>m_jobId = 1, m_status = ''recognizing text'',
                          m_progress = Finite False 2 (- 1)\<rparr> = Finite False 2 (- 1)"
    and dm: "is_double (m_progress \<lparr>m_jobId = 1, m_status = ''recognizing text'',
                          m_progress = Finite False 2 (- 1)\<rparr>)"
    and dy: "dyadic False 2 (- 1) = 1"
    by (simp_all add: bit_length.simps dyadic_def)
  from T have a: "progress (run (single_submission mount 1 [InitSettled (Inr ())] page_92_5)
                              mount) = progress mount"
    by blast
  from T st mp dm dy
  have b: "progress (run (single_submission mount 1
                    ([InitSettled (Inr ()), Log (Some quarter_of_job_1)] @
                     Log (Some \<lparr>m_jobId = 1, m_status = ''recognizing text'',
                                 m_progress = Finite False 2 (- 1)\<rparr>) #
                     [InitSettled (Inr ())]) page_92_5) mount) = Finite False 100 0"
    by blast
  from T st
  have c: "ocr (run (single_submission mount 1
                    ([InitSettled (Inr ()), Log (Some quarter_of_job_1)] @
                     Log (Some \<lparr>m_jobId = 1, m_status = ''recognizing text'',
                                 m_progress = Finite False 2 (- 1)\<rparr>) #
                     [InitSettled (Inr ())]) page_92_5) mount) = Some page_92_5"
    by blast
  show ?thesis using a b c h0 h1 h2 h3 d pg by (simp add: mount_simps)
qed

text \<open>
  C9 as stated fails. When the bootstrap resolves and the recognition resolves without
  the worker having reported any \<^verbatim>\<open>"recognizing text"\<close> event, the result is
  committed and the progress is still 0.
\<close>

theorem single_submission_counterexample:
  "progress (run silent_success mount) = Finite False 0 0 \<and>
   ocr (run silent_success mount) = Some page_92_5 \<and>
   error (run silent_success mount) = None \<and>
   \<not> loading (run silent_success mount) \<and>
   init_pc (run silent_success mount) = InitReturned"
  by (simp add: silent_success_def mount_def initial_def hook_defs Let_def)

end
